theory Spec2Isabelle
  imports Main
begin

section \<open>JavaScript values\<close>

text \<open>
  The client (\<open>src/gg.js\<close>, class \<open>RealLSPClient\<close>) handles values that come out of
  \<open>JSON.parse\<close> and tests them dynamically (truthiness, \<open>typeof\<close>, \<open>Array.isArray\<close>,
  strict equality), so they are modelled as one datatype. Numbers are the integers: the
  protocol's identifiers, lines, characters and severities are integers far below
  \<open>2^53\<close>, where double arithmetic is exact. \<open>JNaN\<close> is the result of arithmetic on a
  non-number. An object is the list of its own properties, keys pairwise distinct.
\<close>

datatype json =
    JUndefined
  | JNull
  | JBool bool
  | JNum int
  | JNaN
  | JStr string
  | JArr "json list"
  | JObj "(string \<times> json) list"

datatype error = Error string | TypeError string

fun error_message :: "error \<Rightarrow> string" where
  "error_message (Error m) = m"
| "error_message (TypeError m) = m"

text \<open>Truthiness, as tested by \<open>!x\<close>, \<open>x && y\<close>, \<open>x || y\<close> and \<open>if (x)\<close>.\<close>

fun truthy :: "json \<Rightarrow> bool" where
  "truthy JUndefined = False"
| "truthy JNull = False"
| "truthy (JBool b) = b"
| "truthy (JNum n) = (n \<noteq> 0)"
| "truthy JNaN = False"
| "truthy (JStr s) = (s \<noteq> [])"
| "truthy (JArr xs) = True"
| "truthy (JObj kvs) = True"

text \<open>
  Reading an own property of an object literal or a parsed object: \<open>undefined\<close> when the
  property is absent.
\<close>

definition field :: "(string \<times> json) list \<Rightarrow> string \<Rightarrow> json" where
  "field kvs k = (case map_of kvs k of None \<Rightarrow> JUndefined | Some v \<Rightarrow> v)"

text \<open>
  Property access \<open>v.k\<close> on any value: a \<open>TypeError\<close> on \<open>undefined\<close> and \<open>null\<close>
  (the message text is the engine's), the own property on an object, and \<open>undefined\<close> on
  every other value for the property names this program reads (none of them is a member
  of a built-in prototype).
\<close>

fun js_get :: "json \<Rightarrow> string \<Rightarrow> error + json" where
  "js_get JUndefined k = Inl (TypeError (''Cannot read properties of undefined (reading '' @ k @ '')''))"
| "js_get JNull k = Inl (TypeError (''Cannot read properties of null (reading '' @ k @ '')''))"
| "js_get (JObj kvs) k = Inr (field kvs k)"
| "js_get v k = Inr JUndefined"

text \<open>Optional chaining \<open>v?.k\<close>.\<close>

fun js_get_opt :: "json \<Rightarrow> string \<Rightarrow> json" where
  "js_get_opt (JObj kvs) k = field kvs k"
| "js_get_opt v k = JUndefined"

subsection \<open>Conversion to string\<close>

definition digit_char :: "nat \<Rightarrow> char" where
  "digit_char d = ''0123456789'' ! d"

function nat_to_string :: "nat \<Rightarrow> string" where
  "nat_to_string n =
     (if n < 10 then [digit_char n] else nat_to_string (n div 10) @ [digit_char (n mod 10)])"
  by pat_completeness auto
termination
  by (relation "measure id") auto

declare nat_to_string.simps [simp del]

definition int_to_string :: "int \<Rightarrow> string" where
  "int_to_string n = (if n < 0 then ''-'' @ nat_to_string (nat (- n)) else nat_to_string (nat n))"

text \<open>\<open>Array.prototype.join\<close> on elements already converted to strings.\<close>

fun join :: "string \<Rightarrow> string list \<Rightarrow> string" where
  "join sep [] = []"
| "join sep [x] = x"
| "join sep (x # y # ys) = x @ sep @ join sep (y # ys)"

text \<open>
  \<open>ToString\<close>, as applied by template literals, by \<open>new Error(x)\<close>, by string
  concatenation and by \<open>join\<close>. An array is the comma-joined list of its elements, with
  \<open>undefined\<close> and \<open>null\<close> elements contributing the empty string.
\<close>

fun to_string :: "json \<Rightarrow> string" where
  "to_string JUndefined = ''undefined''"
| "to_string JNull = ''null''"
| "to_string (JBool b) = (if b then ''true'' else ''false'')"
| "to_string (JNum n) = int_to_string n"
| "to_string JNaN = ''NaN''"
| "to_string (JStr s) = s"
| "to_string (JArr xs) =
     join '','' (map (\<lambda>v. if v = JUndefined \<or> v = JNull then [] else to_string v) xs)"
| "to_string (JObj kvs) = ''[object Object]''"

text \<open>The element conversion of \<open>join\<close>.\<close>

definition join_element :: "json \<Rightarrow> string" where
  "join_element v = (if v = JUndefined \<or> v = JNull then [] else to_string v)"

text \<open>
  The addition \<open>v + n\<close> for a number literal \<open>n\<close>: numeric on numbers, booleans,
  \<open>null\<close> and \<open>undefined\<close>, string concatenation on strings, arrays and objects.
\<close>

fun js_plus :: "json \<Rightarrow> int \<Rightarrow> json" where
  "js_plus (JNum a) n = JNum (a + n)"
| "js_plus JNaN n = JNaN"
| "js_plus JUndefined n = JNaN"
| "js_plus JNull n = JNum n"
| "js_plus (JBool b) n = JNum ((if b then 1 else 0) + n)"
| "js_plus v n = JStr (to_string v @ int_to_string n)"

section \<open>The client and the world it acts on\<close>

text \<open>
  \<open>WebSocket.readyState\<close>, an entry of the pending-request table (the \<open>resolve\<close> and
  \<open>reject\<close> closures of one promise, identified by the promise's number, and the
  \<open>Date.now()\<close> timestamp), and a child of the log container (its class name, the clock
  value its \<open>toLocaleTimeString\<close> prefix is printed from, and the message).
\<close>

datatype ready_state = CONNECTING | OPEN | CLOSING | CLOSED

record pending_entry =
  promise :: nat
  timestamp :: nat

datatype log_entry = LogEntry (className: string) (stamp: nat) (logText: string)

text \<open>What \<open>sendMessage\<close> returns: a promise already rejected, already resolved, or new.\<close>

datatype jpromise = Rejected error | Resolved json | Pending nat

text \<open>
  The callbacks handed to \<open>setTimeout\<close>: the request timeout of \<open>sendMessage\<close>, closed
  over \<open>message.id\<close> and the promise's \<open>reject\<close>, and the reconnection of the close
  handler, closed over \<open>url\<close>.
\<close>

datatype callback = RequestTimeout json nat | Reconnect string

text \<open>
  The points where an \<open>async\<close> method is suspended at an \<open>await\<close>: in \<open>initialize\<close>
  (twice), \<open>getCompletions\<close> (which keeps \<open>position\<close>), \<open>getHover\<close>,
  \<open>openDocument\<close> and \<open>changeDocument\<close>.
\<close>

datatype kont =
    KInitialize
  | KInitialized
  | KCompletions json
  | KHover
  | KOpenDocument
  | KChangeDocument

datatype MarkerSeverity = Hint | Info | Warning | Error_severity

record marker =
  startLineNumber :: json
  endLineNumber :: json
  startColumn :: json
  endColumn :: json
  message :: json
  severity :: MarkerSeverity

text \<open>
  The fields of \<open>RealLSPClient\<close>, the globals the class reads and writes (declared outside
  \<open>src/gg.js\<close>), the JavaScript runtime (clock, timer queue, promises and the
  continuations awaiting them), the DOM elements the class writes, and what its
  collaborators have received so far: the frames given to \<open>ws.send\<close>, the calls of
  promise \<open>resolve\<close>/\<open>reject\<close> closures, the values delivered to the callers of the
  \<open>async\<close> methods, the marker lists given to \<open>monaco.editor.setModelMarkers\<close>, the
  calls of \<open>showNotification\<close> and the number of editor integrations registered.
  \<open>ws\<close> is \<open>None\<close> for \<open>null\<close> and otherwise the socket's \<open>readyState\<close>.
  \<open>websocket_ctor url\<close> is the message of the exception \<open>new WebSocket(url)\<close> throws,
  if it throws. \<open>CompletionItemKind\<close> and \<open>InsertAsSnippet\<close> are the constants of
  \<open>monaco.languages\<close>. \<open>editor\<close> holds \<open>editor.getModel().uri.toString()\<close> and
  \<open>editor.getModel().getValue()\<close>. The badge and the indicator are present when both of
  their elements are; each holds whether the class \<open>disconnected\<close> is set and the text.
\<close>

record world =
  messageId :: int
  pendingRequests :: "json \<rightharpoonup> pending_entry"
  isConnected :: bool
  serverCapabilities :: json
  ws :: "ready_state option"
  reconnectAttempts :: nat
  maxReconnectAttempts :: nat
  lspReady :: bool
  editor :: "(string \<times> string) option"
  editorLoaded :: bool
  errorDetectionEnabled :: bool
  now :: nat
  timers :: "(nat \<times> callback) list"
  nextPromise :: nat
  awaiting :: "nat \<rightharpoonup> kont"
  websocket_ctor :: "string \<Rightarrow> string option"
  CompletionItemKind :: "string \<Rightarrow> json"
  InsertAsSnippet :: json
  lspLogs :: "log_entry list option"
  lspBadge :: "(bool \<times> string) option"
  lspIndicator :: "(bool \<times> string) option"
  sent :: "json list"
  settled :: "(nat \<times> (error + json)) list"
  delivered :: "(string \<times> (error + json)) list"
  markerCalls :: "marker list list"
  notifications :: "(json \<times> json \<times> json) list"
  integrations :: nat

text \<open>
  The constructor. It sets the seven fields of the class; a client just constructed has
  no timers, promises, frames or deliveries of its own. The rest of the world is as it was.
\<close>

definition constructor :: "world \<Rightarrow> world" where
  "constructor w = w\<lparr>
     messageId := 0,
     pendingRequests := Map.empty,
     isConnected := False,
     serverCapabilities := JNull,
     ws := None,
     reconnectAttempts := 0,
     maxReconnectAttempts := 5,
     timers := [],
     nextPromise := 0,
     awaiting := Map.empty,
     sent := [],
     settled := [],
     delivered := [],
     markerCalls := [],
     notifications := []\<rparr>"

subsection \<open>addLog and updateConnectionStatus\<close>

text \<open>The loop of \<open>addLog\<close>: while there are more than 50 children, remove the first.\<close>

function keep_last_50 :: "log_entry list \<Rightarrow> log_entry list" where
  "keep_last_50 children =
     (if length children > 50 then keep_last_50 (tl children) else children)"
  by pat_completeness auto
termination
  by (relation "measure length") auto

declare keep_last_50.simps [simp del]

text \<open>
  \<open>addLog(message, type)\<close>. The message reaches the entry through a template literal, so
  callers pass it converted to a string.
\<close>

definition addLog :: "string \<Rightarrow> string \<Rightarrow> world \<Rightarrow> world" where
  "addLog msg type w =
     (case lspLogs w of
        None \<Rightarrow> w
      | Some children \<Rightarrow>
          w\<lparr>lspLogs := Some (keep_last_50 (children @ [LogEntry (''log-entry '' @ type) (now w) msg]))\<rparr>)"

definition updateConnectionStatus :: "bool \<Rightarrow> string \<Rightarrow> world \<Rightarrow> world" where
  "updateConnectionStatus connected msg w =
     (let w1 = w\<lparr>isConnected := connected\<rparr>;
          w2 = (case lspBadge w1 of
                  None \<Rightarrow> w1
                | Some b \<Rightarrow>
                    if connected then w1\<lparr>lspBadge := Some (False, ''LSP Ready'')\<rparr>
                    else w1\<lparr>lspBadge := Some (True, ''LSP Error'')\<rparr>)
      in case lspIndicator w2 of
           None \<Rightarrow> w2
         | Some i \<Rightarrow>
             if connected
             then w2\<lparr>lspIndicator := Some (False, if msg \<noteq> [] then msg else ''Connected'')\<rparr>
             else w2\<lparr>lspIndicator := Some (True, if msg \<noteq> [] then msg else ''Disconnected'')\<rparr>)"

subsection \<open>sendMessage\<close>

text \<open>
  Every caller passes an object literal, so the message is the list of its properties.
  The frame given to \<open>ws.send\<close> is recorded before \<open>JSON.stringify\<close>. With an
  identifier, the executor of the new promise stores the entry and schedules the timeout.
\<close>

definition sendMessage :: "(string \<times> json) list \<Rightarrow> world \<Rightarrow> jpromise \<times> world" where
  "sendMessage msg w =
     (if ws w = None \<or> ws w \<noteq> Some OPEN then
        (Rejected (Error ''Connection not ready''),
         addLog ''Cannot send message: connection not ready'' ''error'' w)
      else
        let w1 = w\<lparr>sent := sent w @ [JObj msg]\<rparr> in
        if field msg ''id'' \<noteq> JUndefined then
          let p = nextPromise w1 in
          (Pending p,
           w1\<lparr>nextPromise := Suc p,
              pendingRequests := (pendingRequests w1)
                 (field msg ''id'' \<mapsto> \<lparr>promise = p, timestamp = now w1\<rparr>),
              timers := timers w1 @ [(now w1 + 30000, RequestTimeout (field msg ''id'') p)]\<rparr>)
        else (Resolved JUndefined, w1))"

subsection \<open>Awaiting a promise\<close>

text \<open>
  \<open>await\<close> on the promise \<open>sendMessage\<close> returned: the rest of the method runs at once
  (as a microtask of the same task) when the promise is already settled, and is stored
  until the promise is settled otherwise. \<open>deliver\<close> hands the method's result to its
  caller.
\<close>

definition await_promise ::
  "jpromise \<Rightarrow> kont \<Rightarrow> ((error + json) \<Rightarrow> world \<Rightarrow> world) \<Rightarrow> world \<Rightarrow> world" where
  "await_promise pr k rest w =
     (case pr of
        Rejected e \<Rightarrow> rest (Inl e) w
      | Resolved v \<Rightarrow> rest (Inr v) w
      | Pending p \<Rightarrow> w\<lparr>awaiting := (awaiting w)(p \<mapsto> k)\<rparr>)"

definition deliver :: "string \<Rightarrow> (error + json) \<Rightarrow> world \<Rightarrow> world" where
  "deliver name outcome w = w\<lparr>delivered := delivered w @ [(name, outcome)]\<rparr>"

text \<open>\<open>Array.prototype.map\<close> with a callback that may throw.\<close>

fun map_result :: "('a \<Rightarrow> error + 'b) \<Rightarrow> 'a list \<Rightarrow> error + 'b list" where
  "map_result f [] = Inr []"
| "map_result f (x # xs) =
     (case f x of
        Inl e \<Rightarrow> Inl e
      | Inr y \<Rightarrow> (case map_result f xs of Inl e \<Rightarrow> Inl e | Inr ys \<Rightarrow> Inr (y # ys)))"

text \<open>A chain of property accesses \<open>v.k1.k2\<close>...\<close>

fun js_path :: "json \<Rightarrow> string list \<Rightarrow> error + json" where
  "js_path v [] = Inr v"
| "js_path v (k # ks) = (case js_get v k of Inl e \<Rightarrow> Inl e | Inr u \<Rightarrow> js_path u ks)"

subsection \<open>openDocument, changeDocument and the editor integration\<close>

definition resume_openDocument :: "(error + json) \<Rightarrow> world \<Rightarrow> world" where
  "resume_openDocument outcome w =
     (case outcome of
        Inl e \<Rightarrow> deliver ''openDocument'' (Inl e) w
      | Inr v \<Rightarrow> deliver ''openDocument'' (Inr JUndefined) w)"

definition openDocument :: "json \<Rightarrow> json \<Rightarrow> json \<Rightarrow> json \<Rightarrow> world \<Rightarrow> world" where
  "openDocument uri languageId version text w =
     (if \<not> isConnected w then deliver ''openDocument'' (Inr JUndefined) w
      else
        let (pr, w1) = sendMessage
              [(''jsonrpc'', JStr ''2.0''),
               (''method'', JStr ''textDocument/didOpen''),
               (''params'', JObj [(''textDocument'', JObj
                  [(''uri'', uri), (''languageId'', languageId),
                   (''version'', version), (''text'', text)])])] w
        in await_promise pr KOpenDocument resume_openDocument w1)"

definition resume_changeDocument :: "(error + json) \<Rightarrow> world \<Rightarrow> world" where
  "resume_changeDocument outcome w =
     (case outcome of
        Inl e \<Rightarrow> deliver ''changeDocument'' (Inl e) w
      | Inr v \<Rightarrow> deliver ''changeDocument'' (Inr JUndefined) w)"

definition changeDocument :: "json \<Rightarrow> json \<Rightarrow> json \<Rightarrow> world \<Rightarrow> world" where
  "changeDocument uri version changes w =
     (if \<not> isConnected w then deliver ''changeDocument'' (Inr JUndefined) w
      else
        let (pr, w1) = sendMessage
              [(''jsonrpc'', JStr ''2.0''),
               (''method'', JStr ''textDocument/didChange''),
               (''params'', JObj
                  [(''textDocument'', JObj [(''uri'', uri), (''version'', version)]),
                   (''contentChanges'', changes)])] w
        in await_promise pr KChangeDocument resume_changeDocument w1)"

text \<open>
  \<open>setupEditorIntegration\<close> opens the document and registers a content-change listener
  and the completion and hover providers with the editor; the registration is counted,
  and what the listener and the providers do later is a call of \<open>changeDocument\<close>,
  \<open>getCompletions\<close> or \<open>getHover\<close>.
\<close>

definition setupEditorIntegration :: "world \<Rightarrow> world" where
  "setupEditorIntegration w =
     (case editor w of
        None \<Rightarrow> w
      | Some (uri, text) \<Rightarrow>
          if \<not> editorLoaded w then w
          else
            let w1 = openDocument (JStr uri) (JStr ''lua'') (JNum 1) (JStr text) w;
                w2 = w1\<lparr>integrations := integrations w1 + 1\<rparr>
            in addLog ''Editor integration complete'' ''success'' w2)"

subsection \<open>initialize\<close>

definition showNotification :: "json \<Rightarrow> json \<Rightarrow> json \<Rightarrow> world \<Rightarrow> world" where
  "showNotification msg duration urgent w =
     w\<lparr>notifications := notifications w @ [(msg, duration, urgent)]\<rparr>"

definition initialize_request :: "int \<Rightarrow> (string \<times> json) list" where
  "initialize_request n =
     [(''jsonrpc'', JStr ''2.0''),
      (''id'', JNum n),
      (''method'', JStr ''initialize''),
      (''params'', JObj
        [(''processId'', JNull),
         (''clientInfo'', JObj [(''name'', JStr ''LuaU Web Editor''), (''version'', JStr ''1.0.0'')]),
         (''rootUri'', JNull),
         (''capabilities'', JObj
           [(''textDocument'', JObj
              [(''completion'', JObj
                 [(''completionItem'', JObj
                    [(''snippetSupport'', JBool True),
                     (''commitCharactersSupport'', JBool True),
                     (''documentationFormat'', JArr [JStr ''markdown'', JStr ''plaintext'']),
                     (''deprecatedSupport'', JBool True),
                     (''preselectSupport'', JBool True)]),
                  (''contextSupport'', JBool True)]),
               (''hover'', JObj
                 [(''contentFormat'', JArr [JStr ''markdown'', JStr ''plaintext''])]),
               (''signatureHelp'', JObj
                 [(''signatureInformation'', JObj
                    [(''documentationFormat'', JArr [JStr ''markdown'', JStr ''plaintext'']),
                     (''parameterInformation'', JObj [(''labelOffsetSupport'', JBool True)])])]),
               (''publishDiagnostics'', JObj
                 [(''relatedInformation'', JBool True),
                  (''versionSupport'', JBool True),
                  (''tagSupport'', JObj [(''valueSet'', JArr [JNum 1, JNum 2])])]),
               (''definition'', JObj [(''linkSupport'', JBool True)]),
               (''references'', JObj
                 [(''context'', JObj [(''includeDeclaration'', JBool True)])]),
               (''documentFormatting'', JBool True),
               (''documentRangeFormatting'', JBool True)]),
            (''workspace'', JObj
              [(''workspaceFolders'', JBool True), (''configuration'', JBool True)])]),
         (''trace'', JStr ''verbose''),
         (''workspaceFolders'', JNull)])]"

text \<open>The rest of \<open>initialize\<close> after its second \<open>await\<close>, and after its first.\<close>

definition resume_initialized :: "(error + json) \<Rightarrow> world \<Rightarrow> world" where
  "resume_initialized outcome w =
     (case outcome of
        Inl e \<Rightarrow> addLog (''Initialization failed: '' @ error_message e) ''error'' w
      | Inr v \<Rightarrow>
          setupEditorIntegration
            (showNotification (JStr ''LSP server ready!'') JUndefined JUndefined
               (w\<lparr>lspReady := True\<rparr>)))"

definition resume_initialize :: "(error + json) \<Rightarrow> world \<Rightarrow> world" where
  "resume_initialize outcome w =
     (case outcome of
        Inl e \<Rightarrow> addLog (''Initialization failed: '' @ error_message e) ''error'' w
      | Inr result \<Rightarrow>
          (case js_get result ''capabilities'' of
             Inl e \<Rightarrow> addLog (''Initialization failed: '' @ error_message e) ''error'' w
           | Inr caps \<Rightarrow>
               let w1 = addLog ''Server initialized successfully'' ''success''
                          (w\<lparr>serverCapabilities := caps\<rparr>);
                   (pr, w2) = sendMessage
                      [(''jsonrpc'', JStr ''2.0''),
                       (''method'', JStr ''initialized''),
                       (''params'', JObj [])] w1
               in await_promise pr KInitialized resume_initialized w2))"

definition initialize :: "world \<Rightarrow> world" where
  "initialize w =
     (let w1 = w\<lparr>messageId := messageId w + 1\<rparr>;
          (pr, w2) = sendMessage (initialize_request (messageId w1)) w1
      in await_promise pr KInitialize resume_initialize w2)"

subsection \<open>getCompletions and getHover\<close>

text \<open>Sequencing of steps that may throw.\<close>

definition bnd :: "error + 'a \<Rightarrow> ('a \<Rightarrow> error + 'b) \<Rightarrow> error + 'b" where
  "bnd r f = (case r of Inl e \<Rightarrow> Inl e | Inr x \<Rightarrow> f x)"

definition completion_kind_names :: "(string \<times> string) list" where
  "completion_kind_names =
     [(''1'', ''Text''), (''2'', ''Method''), (''3'', ''Function''), (''4'', ''Constructor''),
      (''5'', ''Field''), (''6'', ''Variable''), (''7'', ''Class''), (''8'', ''Interface''),
      (''9'', ''Module''), (''10'', ''Property''), (''11'', ''Unit''), (''12'', ''Value''),
      (''13'', ''Enum''), (''14'', ''Keyword''), (''15'', ''Snippet''), (''16'', ''Color''),
      (''17'', ''File''), (''18'', ''Reference'')]"

text \<open>
  \<open>mapping[kind] || Text\<close>: the property key is the kind converted to a string (kinds
  that spell a member of \<open>Object.prototype\<close> are not modelled).
\<close>

definition mapCompletionKind :: "(string \<Rightarrow> json) \<Rightarrow> json \<Rightarrow> json" where
  "mapCompletionKind cik kind =
     (let v = (case map_of completion_kind_names (to_string kind) of
                 None \<Rightarrow> JUndefined
               | Some name \<Rightarrow> cik name)
      in if truthy v then v else cik ''Text'')"

definition completion_item ::
  "(string \<Rightarrow> json) \<Rightarrow> json \<Rightarrow> json \<Rightarrow> json \<Rightarrow> error + json" where
  "completion_item cik snippet position item =
     bnd (js_get item ''label'') (\<lambda>label.
     bnd (js_get item ''kind'') (\<lambda>kind.
     bnd (js_get item ''documentation'') (\<lambda>documentation.
     bnd (js_get item ''insertText'') (\<lambda>insertText.
     bnd (js_get item ''insertTextFormat'') (\<lambda>insertTextFormat.
     bnd (js_get item ''range'') (\<lambda>range.
     bnd (if truthy range then Inr range
          else
            bnd (js_get position ''line'') (\<lambda>line.
            bnd (js_get position ''character'') (\<lambda>character.
              Inr (JObj [(''startLineNumber'', js_plus line 1),
                         (''endLineNumber'', js_plus line 1),
                         (''startColumn'', js_plus character 1),
                         (''endColumn'', js_plus character 1)])))) (\<lambda>r.
       Inr (JObj
         [(''label'', label),
          (''kind'', mapCompletionKind cik kind),
          (''documentation'', documentation),
          (''insertText'', if truthy insertText then insertText else label),
          (''insertTextRules'', if insertTextFormat = JNum 2 then snippet else JNum 0),
          (''range'', r)]))))))))"

text \<open>
  What \<open>getCompletions\<close> computes from the result of its request: the items are the
  result itself when it is an array and \<open>result?.items || []\<close> otherwise, and \<open>map\<close>
  exists on arrays only.
\<close>

definition completion_suggestions ::
  "(string \<Rightarrow> json) \<Rightarrow> json \<Rightarrow> json \<Rightarrow> json \<Rightarrow> error + json" where
  "completion_suggestions cik snippet position result =
     (let items = (case result of
                     JArr xs \<Rightarrow> JArr xs
                   | _ \<Rightarrow> (let i = js_get_opt result ''items''
                           in if truthy i then i else JArr []))
      in case items of
           JArr xs \<Rightarrow>
             bnd (map_result (completion_item cik snippet position) xs) (\<lambda>ys.
               Inr (JObj [(''suggestions'', JArr ys)]))
         | _ \<Rightarrow> Inl (TypeError ''items.map is not a function''))"

definition resume_getCompletions :: "json \<Rightarrow> (error + json) \<Rightarrow> world \<Rightarrow> world" where
  "resume_getCompletions position outcome w =
     (case bnd outcome (completion_suggestions (CompletionItemKind w) (InsertAsSnippet w) position) of
        Inl e \<Rightarrow>
          deliver ''getCompletions'' (Inr (JObj [(''suggestions'', JArr [])]))
            (addLog (''Completion error: '' @ error_message e) ''error'' w)
      | Inr v \<Rightarrow> deliver ''getCompletions'' (Inr v) w)"

definition getCompletions :: "json \<Rightarrow> json \<Rightarrow> world \<Rightarrow> world" where
  "getCompletions uri position w =
     (if \<not> isConnected w \<or> \<not> truthy (js_get_opt (serverCapabilities w) ''completionProvider'')
      then deliver ''getCompletions'' (Inr (JObj [(''suggestions'', JArr [])])) w
      else
        let w1 = w\<lparr>messageId := messageId w + 1\<rparr>;
            (pr, w2) = sendMessage
              [(''jsonrpc'', JStr ''2.0''),
               (''id'', JNum (messageId w1)),
               (''method'', JStr ''textDocument/completion''),
               (''params'', JObj
                  [(''textDocument'', JObj [(''uri'', uri)]),
                   (''position'', position),
                   (''context'', JObj [(''triggerKind'', JNum 1)])])] w1
        in await_promise pr (KCompletions position) (resume_getCompletions position) w2)"

text \<open>
  One fragment of a hover's contents: a string as it is, anything else by
  \<open>content.value || content\<close>.
\<close>

definition hover_fragment :: "json \<Rightarrow> error + json" where
  "hover_fragment content =
     (case content of
        JStr s \<Rightarrow> Inr (JStr s)
      | _ \<Rightarrow> bnd (js_get content ''value'') (\<lambda>v. Inr (if truthy v then v else content)))"

text \<open>The text block: the fragments mapped and joined with two line feeds.\<close>

definition hover_markdown :: "json \<Rightarrow> error + string" where
  "hover_markdown contents =
     bnd (map_result hover_fragment (case contents of JArr xs \<Rightarrow> xs | _ \<Rightarrow> [contents])) (\<lambda>fs.
       Inr (join [CHR 0x0A, CHR 0x0A] (map join_element fs)))"

text \<open>What \<open>getHover\<close> computes from the result of its request.\<close>

definition hover_result :: "json \<Rightarrow> error + json" where
  "hover_result result =
     (if \<not> truthy result then Inr JNull
      else
        bnd (js_get result ''contents'') (\<lambda>contents.
          if \<not> truthy contents then Inr JNull
          else
            bnd (hover_markdown contents) (\<lambda>markdown.
            bnd (js_get result ''range'') (\<lambda>range.
              Inr (JObj [(''range'', range),
                         (''contents'', JArr [JObj [(''value'', JStr markdown)]])])))))"

definition resume_getHover :: "(error + json) \<Rightarrow> world \<Rightarrow> world" where
  "resume_getHover outcome w =
     (case bnd outcome hover_result of
        Inl e \<Rightarrow>
          deliver ''getHover'' (Inr JNull) (addLog (''Hover error: '' @ error_message e) ''error'' w)
      | Inr v \<Rightarrow> deliver ''getHover'' (Inr v) w)"

definition getHover :: "json \<Rightarrow> json \<Rightarrow> world \<Rightarrow> world" where
  "getHover uri position w =
     (if \<not> isConnected w \<or> \<not> truthy (js_get_opt (serverCapabilities w) ''hoverProvider'')
      then deliver ''getHover'' (Inr JNull) w
      else
        let w1 = w\<lparr>messageId := messageId w + 1\<rparr>;
            (pr, w2) = sendMessage
              [(''jsonrpc'', JStr ''2.0''),
               (''id'', JNum (messageId w1)),
               (''method'', JStr ''textDocument/hover''),
               (''params'', JObj
                  [(''textDocument'', JObj [(''uri'', uri)]),
                   (''position'', position)])] w1
        in await_promise pr KHover resume_getHover w2)"

subsection \<open>Settling a promise\<close>

text \<open>The method suspended at \<open>k\<close> continues with the outcome of the promise.\<close>

fun resume :: "kont \<Rightarrow> (error + json) \<Rightarrow> world \<Rightarrow> world" where
  "resume KInitialize = resume_initialize"
| "resume KInitialized = resume_initialized"
| "resume (KCompletions position) = resume_getCompletions position"
| "resume KHover = resume_getHover"
| "resume KOpenDocument = resume_openDocument"
| "resume KChangeDocument = resume_changeDocument"

text \<open>
  A call of a promise's \<open>resolve\<close> (\<open>Inr\<close>) or \<open>reject\<close> (\<open>Inl\<close>) closure: the call is
  recorded, and the method awaiting the promise, if any, continues.
\<close>

definition settle :: "nat \<Rightarrow> (error + json) \<Rightarrow> world \<Rightarrow> world" where
  "settle p outcome w =
     (let w1 = w\<lparr>settled := settled w @ [(p, outcome)]\<rparr>
      in case awaiting w1 p of
           None \<Rightarrow> w1
         | Some k \<Rightarrow> resume k outcome (w1\<lparr>awaiting := (awaiting w1)(p := None)\<rparr>))"

subsection \<open>handleDiagnostics\<close>

definition marker_severity :: "json \<Rightarrow> MarkerSeverity" where
  "marker_severity s =
     (if s = JNum 1 then Error_severity
      else if s = JNum 2 then Warning
      else if s = JNum 3 then Info
      else Hint)"

text \<open>The callback of \<open>params.diagnostics.map\<close>.\<close>

definition diagnostic_marker :: "json \<Rightarrow> error + marker" where
  "diagnostic_marker diag =
     bnd (js_path diag [''range'', ''start'', ''line'']) (\<lambda>sl.
     bnd (js_path diag [''range'', ''end'', ''line'']) (\<lambda>el.
     bnd (js_path diag [''range'', ''start'', ''character'']) (\<lambda>sc.
     bnd (js_path diag [''range'', ''end'', ''character'']) (\<lambda>ec.
     bnd (js_get diag ''message'') (\<lambda>m.
     bnd (js_get diag ''severity'') (\<lambda>s.
       Inr \<lparr>startLineNumber = js_plus sl 1,
            endLineNumber = js_plus el 1,
            startColumn = js_plus sc 1,
            endColumn = js_plus ec 1,
            message = m,
            severity = marker_severity s\<rparr>))))))"

definition handleDiagnostics :: "json \<Rightarrow> world \<Rightarrow> error + world" where
  "handleDiagnostics params w =
     (if editor w = None \<or> \<not> errorDetectionEnabled w then Inr w
      else
        bnd (js_get params ''diagnostics'') (\<lambda>diagnostics.
          case diagnostics of
            JArr ds \<Rightarrow>
              bnd (map_result diagnostic_marker ds) (\<lambda>markers.
                let w1 = w\<lparr>markerCalls := markerCalls w @ [markers]\<rparr>
                in Inr (if length ds > 0
                        then addLog (''Received '' @ nat_to_string (length ds) @ '' diagnostic(s)'')
                               ''info'' w1
                        else w1))
          | JUndefined \<Rightarrow> Inl (TypeError ''Cannot read properties of undefined (reading map)'')
          | JNull \<Rightarrow> Inl (TypeError ''Cannot read properties of null (reading map)'')
          | _ \<Rightarrow> Inl (TypeError ''params.diagnostics.map is not a function'')))"

subsection \<open>handleMessage\<close>

definition getLogLevel :: "json \<Rightarrow> string" where
  "getLogLevel type =
     (if type = JNum 1 then ''error''
      else if type = JNum 2 then ''error''
      else if type = JNum 3 then ''info''
      else if type = JNum 4 then ''info''
      else ''info'')"

text \<open>
  \<open>Map.prototype.has\<close> and \<open>get\<close> compare keys by value on primitives and by identity
  on arrays and objects. The identifier of an inbound frame is fresh from \<open>JSON.parse\<close>,
  so an array or an object there is identical to no key of the table.
\<close>

definition lookup_parsed :: "(json \<rightharpoonup> pending_entry) \<Rightarrow> json \<Rightarrow> pending_entry option" where
  "lookup_parsed table k = (case k of JArr xs \<Rightarrow> None | JObj kvs \<Rightarrow> None | _ \<Rightarrow> table k)"

text \<open>
  \<open>handleMessage\<close>. Every exception it can throw is thrown before it has changed
  anything, so a throw carries no world.
\<close>

definition handleMessage :: "json \<Rightarrow> world \<Rightarrow> error + world" where
  "handleMessage msg w =
     bnd (js_get msg ''id'') (\<lambda>rid.
       case (if truthy rid then lookup_parsed (pendingRequests w) rid else None) of
         Some request \<Rightarrow>
           (let w1 = w\<lparr>pendingRequests := (pendingRequests w)(rid := None)\<rparr> in
            bnd (js_get msg ''error'') (\<lambda>err.
              if truthy err then
                bnd (js_get err ''message'') (\<lambda>m.
                  Inr (settle (promise request)
                         (Inl (Error (to_string (if truthy m then m else JStr ''LSP error'')))) w1))
              else
                bnd (js_get msg ''result'') (\<lambda>result.
                  Inr (settle (promise request) (Inr result) w1))))
       | None \<Rightarrow>
           bnd (js_get msg ''method'') (\<lambda>method.
             if \<not> truthy method then Inr w
             else if method = JStr ''textDocument/publishDiagnostics'' then
               bnd (js_get msg ''params'') (\<lambda>params. handleDiagnostics params w)
             else if method = JStr ''window/logMessage'' then
               bnd (js_path msg [''params'', ''message'']) (\<lambda>m.
               bnd (js_path msg [''params'', ''type'']) (\<lambda>t.
                 Inr (addLog (to_string m) (getLogLevel t) w)))
             else if method = JStr ''window/showMessage'' then
               bnd (js_path msg [''params'', ''message'']) (\<lambda>m.
               bnd (js_path msg [''params'', ''type'']) (\<lambda>t.
                 Inr (showNotification m (JNum 3000) (JBool (t = JNum 1)) w)))
             else Inr (addLog (''Unhandled notification: '' @ to_string method) ''info'' w)))"

subsection \<open>connect and the handlers of the socket\<close>

definition default_url :: string where
  "default_url = ''ws://localhost:8080/lsp''"

text \<open>
  \<open>connect(url)\<close>: a new socket starts in \<open>CONNECTING\<close>; the four handlers it is
  given are \<open>onopen\<close>, \<open>onmessage\<close>, \<open>onclose\<close> and \<open>onerror\<close> below.
\<close>

definition connect :: "string \<Rightarrow> world \<Rightarrow> world" where
  "connect url w =
     (let w1 = addLog (''Connecting to LSP server at '' @ url @ ''...'') ''info'' w
      in case websocket_ctor w1 url of
           None \<Rightarrow> w1\<lparr>ws := Some CONNECTING\<rparr>
         | Some m \<Rightarrow>
             updateConnectionStatus False ''Connection failed''
               (addLog (''Connection failed: '' @ m) ''error'' w1))"

definition onopen :: "world \<Rightarrow> world" where
  "onopen w =
     (let w1 = w\<lparr>isConnected := True\<rparr>;
          w2 = w1\<lparr>reconnectAttempts := 0\<rparr>;
          w3 = updateConnectionStatus True ''Connected'' w2;
          w4 = addLog ''WebSocket connection established'' ''success'' w3
      in initialize w4)"

text \<open>
  \<open>onmessage\<close>: the event brings either the message of the \<open>SyntaxError\<close> that
  \<open>JSON.parse\<close> throws or the parsed value.
\<close>

definition onmessage :: "string + json \<Rightarrow> world \<Rightarrow> world" where
  "onmessage parsed w =
     (case parsed of
        Inl m \<Rightarrow> addLog (''Failed to parse message: '' @ m) ''error'' w
      | Inr msg \<Rightarrow>
          (case handleMessage msg w of
             Inl e \<Rightarrow> addLog (''Failed to parse message: '' @ error_message e) ''error'' w
           | Inr w' \<Rightarrow> w'))"

text \<open>The delay of the reconnection, from the attempt counter already incremented.\<close>

definition reconnect_delay :: "nat \<Rightarrow> nat" where
  "reconnect_delay attempts = min (1000 * 2 ^ attempts) 30000"

definition onclose :: "string \<Rightarrow> json \<Rightarrow> json \<Rightarrow> world \<Rightarrow> world" where
  "onclose url code reason w =
     (let w1 = w\<lparr>isConnected := False\<rparr>;
          w2 = updateConnectionStatus False ''Disconnected'' w1;
          w3 = addLog (''Connection closed: '' @ to_string code @ '' - '' @ to_string reason)
                 ''error'' w2
      in if reconnectAttempts w3 < maxReconnectAttempts w3 then
           let w4 = w3\<lparr>reconnectAttempts := reconnectAttempts w3 + 1\<rparr>;
               delay = reconnect_delay (reconnectAttempts w4);
               w5 = addLog (''Reconnecting in '' @ nat_to_string delay @ ''ms... (''
                             @ nat_to_string (reconnectAttempts w4) @ ''/''
                             @ nat_to_string (maxReconnectAttempts w4) @ '')'') ''info'' w4
           in w5\<lparr>timers := timers w5 @ [(now w5 + delay, Reconnect url)]\<rparr>
         else w3)"

text \<open>\<open>onerror\<close>, given \<open>error.message\<close>.\<close>

definition onerror :: "json \<Rightarrow> world \<Rightarrow> world" where
  "onerror m w =
     updateConnectionStatus False ''Connection error''
       (addLog (''WebSocket error: '' @ to_string (if truthy m then m else JStr ''Unknown error''))
          ''error'' w)"

subsection \<open>Timers\<close>

fun run_callback :: "callback \<Rightarrow> world \<Rightarrow> world" where
  "run_callback (RequestTimeout rid p) w =
     (if pendingRequests w rid \<noteq> None
      then settle p (Inl (Error ''Request timeout''))
             (w\<lparr>pendingRequests := (pendingRequests w)(rid := None)\<rparr>)
      else w)"
| "run_callback (Reconnect url) w = connect url w"

text \<open>
  The runtime runs the \<open>k\<close>-th timer of the queue once its time has come, and not
  before.
\<close>

definition fire_timer :: "nat \<Rightarrow> world \<Rightarrow> world" where
  "fire_timer k w =
     (if k < length (timers w) \<and> fst (timers w ! k) \<le> now w
      then run_callback (snd (timers w ! k))
             (w\<lparr>timers := take k (timers w) @ drop (Suc k) (timers w)\<rparr>)
      else w)"

subsection \<open>Runs of the client\<close>

text \<open>
  Everything runs on one thread, one task after the other. A task is a call of a public
  method, an event of a socket the client created (its \<open>onclose\<close> knows the \<open>url\<close> of
  its \<open>connect\<close>), or a timer. Between tasks the clock advances, the transport changes
  the state of the current socket, and other code changes the globals.
\<close>

datatype event =
    Connect "string option"
  | OnOpen
  | OnMessage "string + json"
  | OnClose string json json
  | OnError json
  | FireTimer nat
  | GetCompletions json json
  | GetHover json json
  | OpenDocument json json json json
  | ChangeDocument json json json
  | Advance nat
  | SetReadyState ready_state
  | SetGlobals "(string \<times> string) option" bool bool

fun step :: "world \<Rightarrow> event \<Rightarrow> world" where
  "step w (Connect url) = connect (case url of None \<Rightarrow> default_url | Some u \<Rightarrow> u) w"
| "step w OnOpen = onopen w"
| "step w (OnMessage parsed) = onmessage parsed w"
| "step w (OnClose url code reason) = onclose url code reason w"
| "step w (OnError m) = onerror m w"
| "step w (FireTimer k) = fire_timer k w"
| "step w (GetCompletions uri position) = getCompletions uri position w"
| "step w (GetHover uri position) = getHover uri position w"
| "step w (OpenDocument uri languageId version text) = openDocument uri languageId version text w"
| "step w (ChangeDocument uri version changes) = changeDocument uri version changes w"
| "step w (Advance dt) = w\<lparr>now := now w + dt\<rparr>"
| "step w (SetReadyState rs) = (case ws w of None \<Rightarrow> w | Some old \<Rightarrow> w\<lparr>ws := Some rs\<rparr>)"
| "step w (SetGlobals ed loaded detection) =
     w\<lparr>editor := ed, editorLoaded := loaded, errorDetectionEnabled := detection\<rparr>"

definition run :: "world \<Rightarrow> event list \<Rightarrow> world" where
  "run w es = foldl step w es"

section \<open>What a run preserves\<close>

text \<open>
  The identifiers of the frames given to \<open>ws.send\<close>, in order, and the number of times
  the closures of promise \<open>p\<close> have been called.
\<close>

fun request_id :: "json \<Rightarrow> int list" where
  "request_id (JObj kvs) = (case field kvs ''id'' of JNum n \<Rightarrow> [n] | _ \<Rightarrow> [])"
| "request_id v = []"

definition request_ids :: "json list \<Rightarrow> int list" where
  "request_ids frames = concat (map request_id frames)"

definition settle_count :: "nat \<Rightarrow> (nat \<times> (error + json)) list \<Rightarrow> nat" where
  "settle_count p calls = length (filter (\<lambda>c. fst c = p) calls)"

text \<open>
  The part of the world the correlation of requests and responses lives in: the
  identifier counter, the pending-request table, the timer queue, the number of promises
  created by \<open>sendMessage\<close>, the calls of their closures, and the identifiers sent.
\<close>

type_synonym core = "int \<times> (json \<rightharpoonup> pending_entry) \<times> (nat \<times> callback) list \<times> nat
   \<times> (nat \<times> (error + json)) list \<times> int list"

definition core :: "world \<Rightarrow> core" where
  "core w = (messageId w, pendingRequests w, timers w, nextPromise w, settled w, request_ids (sent w))"

text \<open>
  The invariant, piece by piece: every key of the table is a number between 1 and the
  counter; every entry has a promise already created and not yet settled, and its timeout
  is in the timer queue for 30 seconds after its timestamp; two entries never share a
  promise; every request timeout in the queue is for an identifier already allocated and
  a promise already created, and the entry under its identifier, if any, is the one of its
  promise; every promise created is either in the table or settled exactly once; the
  identifiers sent are strictly increasing and between 1 and the counter.
\<close>

definition keys_ok :: "int \<Rightarrow> (json \<rightharpoonup> pending_entry) \<Rightarrow> bool" where
  "keys_ok mid pend = (\<forall>k e. pend k = Some e \<longrightarrow> (\<exists>n. k = JNum n \<and> 1 \<le> n \<and> n \<le> mid))"

definition entries_ok ::
  "(json \<rightharpoonup> pending_entry) \<Rightarrow> (nat \<times> callback) list \<Rightarrow> nat \<Rightarrow> (nat \<times> (error + json)) list \<Rightarrow> bool" where
  "entries_ok pend tms np st =
     (\<forall>k e. pend k = Some e \<longrightarrow>
        promise e < np
        \<and> (timestamp e + 30000, RequestTimeout k (promise e)) \<in> set tms
        \<and> settle_count (promise e) st = 0)"

definition entries_inj :: "(json \<rightharpoonup> pending_entry) \<Rightarrow> bool" where
  "entries_inj pend =
     (\<forall>k k' e e'. pend k = Some e \<longrightarrow> pend k' = Some e' \<longrightarrow> promise e = promise e' \<longrightarrow> k = k')"

definition timers_ok ::
  "int \<Rightarrow> (json \<rightharpoonup> pending_entry) \<Rightarrow> (nat \<times> callback) list \<Rightarrow> nat \<Rightarrow> bool" where
  "timers_ok mid pend tms np =
     (\<forall>t k p. (t, RequestTimeout k p) \<in> set tms \<longrightarrow>
        (\<exists>n. k = JNum n \<and> n \<le> mid) \<and> p < np \<and> (\<forall>e. pend k = Some e \<longrightarrow> promise e = p))"

definition promises_ok ::
  "(json \<rightharpoonup> pending_entry) \<Rightarrow> nat \<Rightarrow> (nat \<times> (error + json)) list \<Rightarrow> bool" where
  "promises_ok pend np st =
     (\<forall>p. (p < np \<longrightarrow> (\<exists>k e. pend k = Some e \<and> promise e = p) \<or> settle_count p st = 1)
          \<and> (np \<le> p \<longrightarrow> settle_count p st = 0))"

definition wire_ok :: "int \<Rightarrow> int list \<Rightarrow> bool" where
  "wire_ok mid ids = (sorted_wrt (<) ids \<and> (\<forall>n \<in> set ids. 1 \<le> n \<and> n \<le> mid))"

fun inv_core :: "core \<Rightarrow> bool" where
  "inv_core (mid, pend, tms, np, st, ids) =
     (0 \<le> mid \<and> keys_ok mid pend \<and> entries_ok pend tms np st \<and> entries_inj pend
      \<and> timers_ok mid pend tms np \<and> promises_ok pend np st \<and> wire_ok mid ids)"

text \<open>The timer queue without its \<open>k\<close>-th timer.\<close>

definition remove_nth :: "nat \<Rightarrow> 'a list \<Rightarrow> 'a list" where
  "remove_nth k xs = take k xs @ drop (Suc k) xs"

text \<open>
  What one task, run at clock time \<open>t\<close>, does to this part of the world: nothing; a
  response settles the entry under its identifier; the counter is incremented and the
  request not sent; the counter is incremented and the request registered and sent; a
  request timeout finds its entry and rejects it; a request timeout finds no entry; a
  reconnection timer runs; a reconnection is scheduled, at most 30 seconds ahead.
\<close>

inductive core_step :: "nat \<Rightarrow> core \<Rightarrow> core \<Rightarrow> bool" where
  same: "core_step t c c"
| response: "truthy k \<Longrightarrow> pend k = Some e \<Longrightarrow>
     core_step t (mid, pend, tms, np, st, ids) (mid, pend(k := None), tms, np, st @ [(promise e, out)], ids)"
| bump: "core_step t (mid, pend, tms, np, st, ids) (mid + 1, pend, tms, np, st, ids)"
| register: "core_step t (mid, pend, tms, np, st, ids)
     (mid + 1, pend(JNum (mid + 1) \<mapsto> \<lparr>promise = np, timestamp = t\<rparr>),
      tms @ [(t + 30000, RequestTimeout (JNum (mid + 1)) np)], Suc np, st, ids @ [mid + 1])"
| timeout: "k < length tms \<Longrightarrow> tms ! k = (due, RequestTimeout rid p) \<Longrightarrow> pend rid \<noteq> None \<Longrightarrow>
     core_step t (mid, pend, tms, np, st, ids)
       (mid, pend(rid := None), remove_nth k tms, np, st @ [(p, Inl (Error ''Request timeout''))], ids)"
| expired: "k < length tms \<Longrightarrow> tms ! k = (due, RequestTimeout rid p) \<Longrightarrow> pend rid = None \<Longrightarrow>
     core_step t (mid, pend, tms, np, st, ids) (mid, pend, remove_nth k tms, np, st, ids)"
| reconnect: "k < length tms \<Longrightarrow> tms ! k = (due, Reconnect url) \<Longrightarrow>
     core_step t (mid, pend, tms, np, st, ids) (mid, pend, remove_nth k tms, np, st, ids)"
| schedule: "due \<le> t + 30000 \<Longrightarrow>
     core_step t (mid, pend, tms, np, st, ids) (mid, pend, tms @ [(due, Reconnect url)], np, st, ids)"

text \<open>
  The clock with the attempt counter and its ceiling, two more facts about a run, and a
  way to finish one. No timer of the queue is due more than 30 seconds ahead. Some request has been answered with a result: a \<open>resolve\<close>
  closure has been called. And the tasks that let 30 seconds pass and then run every timer
  of the queue, the first one each time.
\<close>

definition timing :: "world \<Rightarrow> nat \<times> nat \<times> nat" where
  "timing w = (now w, reconnectAttempts w, maxReconnectAttempts w)"

definition due_ok :: "world \<Rightarrow> bool" where
  "due_ok w = (\<forall>x \<in> set (timers w). fst x \<le> now w + 30000)"

definition drain :: "world \<Rightarrow> event list" where
  "drain w = Advance 30000 # replicate (length (timers w)) (FireTimer 0)"

definition result_received :: "world \<Rightarrow> bool" where
  "result_received w = (\<exists>c \<in> set (settled w). \<not> isl (snd c))"

section \<open>A concrete page\<close>

text \<open>
  A page with an empty log container, badge and indicator present, an editor loaded on
  one document, and a client just constructed.
\<close>

definition example_world :: world where
  "example_world = constructor
     \<lparr>messageId = 0, pendingRequests = Map.empty, isConnected = False,
      serverCapabilities = JNull, ws = None, reconnectAttempts = 0, maxReconnectAttempts = 5,
      lspReady = False, editor = Some (''file:///main.lua'', ''print(1)''), editorLoaded = True,
      errorDetectionEnabled = True, now = 0, timers = [], nextPromise = 0,
      awaiting = Map.empty, websocket_ctor = (\<lambda>url. None),
      CompletionItemKind = (\<lambda>name. JStr name), InsertAsSnippet = JNum 4,
      lspLogs = Some [], lspBadge = Some (True, ''LSP Error''),
      lspIndicator = Some (True, ''Disconnected''), sent = [], settled = [], delivered = [],
      markerCalls = [], notifications = [], integrations = 0\<rparr>"

text \<open>
  Three runs on that page. The handshake begun: the client connects, the socket opens and
  \<open>initialize\<close> is sent. A session: the handshake is answered, a hover is requested and
  never answered in time, its timeout runs, and its response arrives late. A reconnection:
  the socket closes after \<open>initialize\<close> was sent, the reconnection timer runs two seconds
  later and the new socket opens.
\<close>

definition handshake_run :: "event list" where
  "handshake_run = [Connect None, SetReadyState OPEN, OnOpen]"

definition example_run :: "event list" where
  "example_run =
     [Connect None, SetReadyState OPEN, OnOpen,
      OnMessage (Inr (JObj [(''jsonrpc'', JStr ''2.0''), (''id'', JNum 1),
         (''result'', JObj [(''capabilities'', JObj [(''hoverProvider'', JBool True)])])])),
      GetHover (JStr ''file:///main.lua'') (JObj [(''line'', JNum 0), (''character'', JNum 3)]),
      Advance 30000, FireTimer 0, FireTimer 0,
      OnMessage (Inr (JObj [(''jsonrpc'', JStr ''2.0''), (''id'', JNum 2), (''result'', JNull)]))]"

definition reconnect_run :: "event list" where
  "reconnect_run =
     [Connect None, SetReadyState OPEN, OnOpen,
      SetReadyState CLOSED, OnClose default_url (JNum 1006) (JStr ''''),
      Advance 2000, FireTimer 1, SetReadyState OPEN, OnOpen]"

section \<open>The invariant is preserved\<close>

lemma settle_count_append [simp]:
  "settle_count p (st @ [(q, out)]) = settle_count p st + (if q = p then 1 else 0)"
  by (simp add: settle_count_def)

lemma set_remove_nth_subset: "set (remove_nth k xs) \<subseteq> set xs"
proof -
  have "set (take k xs) \<subseteq> set xs" by (rule set_take_subset)
  moreover have "set (drop (Suc k) xs) \<subseteq> set xs" by (rule set_drop_subset)
  ultimately show ?thesis by (simp add: remove_nth_def)
qed

lemma set_remove_nth:
  assumes "k < length xs"
  shows "set xs = insert (xs ! k) (set (remove_nth k xs))"
proof -
  have "set xs = set (take k xs @ xs ! k # drop (Suc k) xs)"
    using id_take_nth_drop [OF assms] by (rule arg_cong)
  then show ?thesis by (simp add: remove_nth_def)
qed

lemma in_set_remove_nth:
  assumes "x \<in> set xs" "x \<noteq> xs ! k"
  shows "x \<in> set (remove_nth k xs)"
proof (cases "k < length xs")
  case True
  from set_remove_nth [OF True] assms show ?thesis by auto
next
  case False
  then show ?thesis using assms by (simp add: remove_nth_def)
qed

lemma response_entries_ok:
  assumes "entries_ok pend tms np st" "entries_inj pend" "pend k = Some e"
  shows "entries_ok (pend(k := None)) tms np (st @ [(promise e, out)])"
  unfolding entries_ok_def
proof (intro allI impI)
  fix k' e' assume "(pend(k := None)) k' = Some e'"
  then have k': "k' \<noteq> k" "pend k' = Some e'" by (auto split: if_splits)
  with assms(2,3) have "promise e \<noteq> promise e'" unfolding entries_inj_def by blast
  with assms(1) k' show "promise e' < np
        \<and> (timestamp e' + 30000, RequestTimeout k' (promise e')) \<in> set tms
        \<and> settle_count (promise e') (st @ [(promise e, out)]) = 0"
    unfolding entries_ok_def by simp
qed

lemma response_promises_ok:
  assumes "promises_ok pend np st" "entries_ok pend tms np st" "pend k = Some e"
  shows "promises_ok (pend(k := None)) np (st @ [(promise e, out)])"
  unfolding promises_ok_def
proof (intro allI conjI impI)
  fix p assume p: "p < np"
  show "(\<exists>k' e'. (pend(k := None)) k' = Some e' \<and> promise e' = p)
          \<or> settle_count p (st @ [(promise e, out)]) = 1"
  proof (cases "p = promise e")
    case True
    with assms(2,3) show ?thesis unfolding entries_ok_def by simp
  next
    case False
    from assms(1) p consider k' e' where "pend k' = Some e'" "promise e' = p" | "settle_count p st = 1"
      unfolding promises_ok_def by blast
    then show ?thesis
    proof cases
      case 1
      with False assms(3) have "k' \<noteq> k" by auto
      with 1 show ?thesis by auto
    next
      case 2
      with False show ?thesis by simp
    qed
  qed
next
  fix p assume p: "np \<le> p"
  from assms(2,3) have "promise e < np" unfolding entries_ok_def by blast
  with p assms(1) show "settle_count p (st @ [(promise e, out)]) = 0"
    unfolding promises_ok_def by simp
qed

lemma inv_core_response:
  assumes "inv_core (mid, pend, tms, np, st, ids)" "pend k = Some e"
  shows "inv_core (mid, pend(k := None), tms, np, st @ [(promise e, out)], ids)"
proof -
  from assms(1) have I: "0 \<le> mid" "keys_ok mid pend" "entries_ok pend tms np st" "entries_inj pend"
      "timers_ok mid pend tms np" "promises_ok pend np st" "wire_ok mid ids"
    by simp_all
  have "keys_ok mid (pend(k := None))"
    using I(2) unfolding keys_ok_def by (simp split: if_splits)
  moreover have "entries_inj (pend(k := None))"
    using I(4) unfolding entries_inj_def by (simp split: if_splits)
  moreover have "timers_ok mid (pend(k := None)) tms np"
    using I(5) unfolding timers_ok_def by (simp split: if_splits)
  ultimately show ?thesis
    using I response_entries_ok [OF I(3,4) assms(2)] response_promises_ok [OF I(6,3) assms(2)]
    by simp
qed

lemma inv_core_bump:
  assumes "inv_core (mid, pend, tms, np, st, ids)"
  shows "inv_core (mid + 1, pend, tms, np, st, ids)"
proof -
  from assms have I: "0 \<le> mid" "keys_ok mid pend" "entries_ok pend tms np st" "entries_inj pend"
      "timers_ok mid pend tms np" "promises_ok pend np st" "wire_ok mid ids"
    by simp_all
  have "keys_ok (mid + 1) pend"
    using I(2) unfolding keys_ok_def by fastforce
  moreover have "timers_ok (mid + 1) pend tms np"
    using I(5) unfolding timers_ok_def by fastforce
  moreover have "wire_ok (mid + 1) ids"
    using I(7) unfolding wire_ok_def by fastforce
  ultimately show ?thesis using I by simp
qed

lemma inv_core_register:
  assumes "inv_core (mid, pend, tms, np, st, ids)"
  shows "inv_core (mid + 1, pend(JNum (mid + 1) \<mapsto> \<lparr>promise = np, timestamp = t\<rparr>),
      tms @ [(t + 30000, RequestTimeout (JNum (mid + 1)) np)], Suc np, st, ids @ [mid + 1])"
proof -
  from assms have I: "0 \<le> mid" "keys_ok mid pend" "entries_ok pend tms np st" "entries_inj pend"
      "timers_ok mid pend tms np" "promises_ok pend np st" "wire_ok mid ids"
    by simp_all
  have fresh: "pend (JNum (mid + 1)) = None"
  proof (rule ccontr)
    assume "pend (JNum (mid + 1)) \<noteq> None"
    then obtain e where "pend (JNum (mid + 1)) = Some e" by auto
    with I(2) show False unfolding keys_ok_def by fastforce
  qed
  have unsettled: "settle_count np st = 0"
    using I(6) unfolding promises_ok_def by simp
  have below: "\<And>k e. pend k = Some e \<Longrightarrow> promise e < np"
    using I(3) unfolding entries_ok_def by blast
  have K: "keys_ok (mid + 1) (pend(JNum (mid + 1) \<mapsto> \<lparr>promise = np, timestamp = t\<rparr>))"
    unfolding keys_ok_def
  proof (intro allI impI)
    fix k e assume ke: "(pend(JNum (mid + 1) \<mapsto> \<lparr>promise = np, timestamp = t\<rparr>)) k = Some e"
    show "\<exists>n. k = JNum n \<and> 1 \<le> n \<and> n \<le> mid + 1"
    proof (cases "k = JNum (mid + 1)")
      case True
      with I(1) show ?thesis by simp
    next
      case False
      with ke have "pend k = Some e" by simp
      with I(2) obtain n where "k = JNum n" "1 \<le> n" "n \<le> mid" unfolding keys_ok_def by blast
      then show ?thesis by simp
    qed
  qed
  have E: "entries_ok (pend(JNum (mid + 1) \<mapsto> \<lparr>promise = np, timestamp = t\<rparr>))
             (tms @ [(t + 30000, RequestTimeout (JNum (mid + 1)) np)]) (Suc np) st"
    unfolding entries_ok_def
  proof (intro allI impI)
    fix k e assume ke: "(pend(JNum (mid + 1) \<mapsto> \<lparr>promise = np, timestamp = t\<rparr>)) k = Some e"
    show "promise e < Suc np
        \<and> (timestamp e + 30000, RequestTimeout k (promise e))
             \<in> set (tms @ [(t + 30000, RequestTimeout (JNum (mid + 1)) np)])
        \<and> settle_count (promise e) st = 0"
    proof (cases "k = JNum (mid + 1)")
      case True
      with ke have "e = \<lparr>promise = np, timestamp = t\<rparr>" by simp
      with True unsettled show ?thesis by simp
    next
      case False
      with ke have "pend k = Some e" by simp
      with I(3) show ?thesis unfolding entries_ok_def by fastforce
    qed
  qed
  have J: "entries_inj (pend(JNum (mid + 1) \<mapsto> \<lparr>promise = np, timestamp = t\<rparr>))"
    unfolding entries_inj_def
  proof (intro allI impI)
    fix k k' e e'
    assume a: "(pend(JNum (mid + 1) \<mapsto> \<lparr>promise = np, timestamp = t\<rparr>)) k = Some e"
      "(pend(JNum (mid + 1) \<mapsto> \<lparr>promise = np, timestamp = t\<rparr>)) k' = Some e'"
      "promise e = promise e'"
    show "k = k'"
    proof (cases "k = JNum (mid + 1)")
      case True
      with a(1) have pe: "promise e = np" by auto
      show ?thesis
      proof (cases "k' = JNum (mid + 1)")
        case True
        with \<open>k = JNum (mid + 1)\<close> show ?thesis by simp
      next
        case False
        with a(2) have "pend k' = Some e'" by simp
        from below [OF this] pe a(3) show ?thesis by simp
      qed
    next
      case False
      with a(1) have pk: "pend k = Some e" by simp
      show ?thesis
      proof (cases "k' = JNum (mid + 1)")
        case True
        with a(2) have "promise e' = np" by auto
        with below [OF pk] a(3) show ?thesis by simp
      next
        case False
        with a(2) have "pend k' = Some e'" by simp
        with pk a(3) I(4) show ?thesis unfolding entries_inj_def by blast
      qed
    qed
  qed
  have T: "timers_ok (mid + 1) (pend(JNum (mid + 1) \<mapsto> \<lparr>promise = np, timestamp = t\<rparr>))
             (tms @ [(t + 30000, RequestTimeout (JNum (mid + 1)) np)]) (Suc np)"
    unfolding timers_ok_def
  proof (intro allI impI)
    fix u k p
    assume "(u, RequestTimeout k p) \<in> set (tms @ [(t + 30000, RequestTimeout (JNum (mid + 1)) np)])"
    then consider "(u, RequestTimeout k p) \<in> set tms" | "k = JNum (mid + 1)" "p = np" by auto
    then show "(\<exists>n. k = JNum n \<and> n \<le> mid + 1) \<and> p < Suc np
        \<and> (\<forall>e. (pend(JNum (mid + 1) \<mapsto> \<lparr>promise = np, timestamp = t\<rparr>)) k = Some e \<longrightarrow> promise e = p)"
    proof cases
      case 1
      with I(5) have old: "\<exists>n. k = JNum n \<and> n \<le> mid" "p < np" "\<forall>e. pend k = Some e \<longrightarrow> promise e = p"
        unfolding timers_ok_def by blast+
      from old(1) have "k \<noteq> JNum (mid + 1)" by auto
      with old show ?thesis by fastforce
    next
      case 2
      then show ?thesis by simp
    qed
  qed
  have P: "promises_ok (pend(JNum (mid + 1) \<mapsto> \<lparr>promise = np, timestamp = t\<rparr>)) (Suc np) st"
    unfolding promises_ok_def
  proof (intro allI conjI impI)
    fix p assume p: "p < Suc np"
    show "(\<exists>k e. (pend(JNum (mid + 1) \<mapsto> \<lparr>promise = np, timestamp = t\<rparr>)) k = Some e \<and> promise e = p)
            \<or> settle_count p st = 1"
    proof (cases "p = np")
      case True
      have "(pend(JNum (mid + 1) \<mapsto> \<lparr>promise = np, timestamp = t\<rparr>)) (JNum (mid + 1))
              = Some \<lparr>promise = np, timestamp = t\<rparr>" by simp
      with True show ?thesis by fastforce
    next
      case False
      with p have "p < np" by simp
      with I(6) consider k e where "pend k = Some e" "promise e = p" | "settle_count p st = 1"
        unfolding promises_ok_def by blast
      then show ?thesis
      proof cases
        case 1
        with fresh have "k \<noteq> JNum (mid + 1)" by auto
        with 1 show ?thesis by auto
      next
        case 2
        then show ?thesis by simp
      qed
    qed
  next
    fix p assume "Suc np \<le> p"
    with I(6) show "settle_count p st = 0" unfolding promises_ok_def by simp
  qed
  have W: "wire_ok (mid + 1) (ids @ [mid + 1])"
    using I(1,7) unfolding wire_ok_def by (fastforce simp: sorted_wrt_append)
  from I(1) K E J T P W show ?thesis by simp
qed

lemma inv_core_drop_timer:
  assumes "inv_core (mid, pend, tms, np, st, ids)"
    and "\<And>k e. pend k = Some e \<Longrightarrow> (timestamp e + 30000, RequestTimeout k (promise e)) \<noteq> tms ! i"
  shows "inv_core (mid, pend, remove_nth i tms, np, st, ids)"
proof -
  from assms(1) have I: "0 \<le> mid" "keys_ok mid pend" "entries_ok pend tms np st" "entries_inj pend"
      "timers_ok mid pend tms np" "promises_ok pend np st" "wire_ok mid ids"
    by simp_all
  have E: "entries_ok pend (remove_nth i tms) np st"
    unfolding entries_ok_def
  proof (intro allI impI)
    fix k e assume ke: "pend k = Some e"
    with I(3) have old: "promise e < np" "(timestamp e + 30000, RequestTimeout k (promise e)) \<in> set tms"
        "settle_count (promise e) st = 0"
      unfolding entries_ok_def by blast+
    from in_set_remove_nth [OF old(2) assms(2) [OF ke]] old
    show "promise e < np
        \<and> (timestamp e + 30000, RequestTimeout k (promise e)) \<in> set (remove_nth i tms)
        \<and> settle_count (promise e) st = 0" by simp
  qed
  have T: "timers_ok mid pend (remove_nth i tms) np"
    using I(5) set_remove_nth_subset [of i tms] unfolding timers_ok_def by blast
  from I E T show ?thesis by simp
qed

lemma inv_core_expired:
  assumes "inv_core (mid, pend, tms, np, st, ids)" "tms ! i = (due, RequestTimeout rid p)" "pend rid = None"
  shows "inv_core (mid, pend, remove_nth i tms, np, st, ids)"
  using assms(1)
proof (rule inv_core_drop_timer)
  fix k e assume "pend k = Some e"
  with assms(3) have "k \<noteq> rid" by auto
  with assms(2) show "(timestamp e + 30000, RequestTimeout k (promise e)) \<noteq> tms ! i" by simp
qed

lemma inv_core_reconnect:
  assumes "inv_core (mid, pend, tms, np, st, ids)" "tms ! i = (due, Reconnect url)"
  shows "inv_core (mid, pend, remove_nth i tms, np, st, ids)"
  using assms(1)
proof (rule inv_core_drop_timer)
  fix k e
  from assms(2) show "(timestamp e + 30000, RequestTimeout k (promise e)) \<noteq> tms ! i" by simp
qed

lemma inv_core_timeout:
  assumes "inv_core (mid, pend, tms, np, st, ids)" "i < length tms"
    "tms ! i = (due, RequestTimeout rid p)" "pend rid \<noteq> None"
  shows "inv_core (mid, pend(rid := None), remove_nth i tms, np, st @ [(p, out)], ids)"
proof -
  from assms(4) obtain e where e: "pend rid = Some e" by auto
  from assms(2,3) have "(due, RequestTimeout rid p) \<in> set tms" by (metis nth_mem)
  with assms(1) e have p: "promise e = p" by (simp add: timers_ok_def)
  from inv_core_response [OF assms(1) e, of out] p
  have "inv_core (mid, pend(rid := None), tms, np, st @ [(p, out)], ids)" by simp
  then show ?thesis
  proof (rule inv_core_drop_timer)
    fix k e' assume "(pend(rid := None)) k = Some e'"
    then have "k \<noteq> rid" by (auto split: if_splits)
    with assms(3) show "(timestamp e' + 30000, RequestTimeout k (promise e')) \<noteq> tms ! i" by simp
  qed
qed

lemma inv_core_schedule:
  assumes "inv_core (mid, pend, tms, np, st, ids)"
  shows "inv_core (mid, pend, tms @ [(due, Reconnect url)], np, st, ids)"
proof -
  from assms have I: "0 \<le> mid" "keys_ok mid pend" "entries_ok pend tms np st" "entries_inj pend"
      "timers_ok mid pend tms np" "promises_ok pend np st" "wire_ok mid ids"
    by simp_all
  have "entries_ok pend (tms @ [(due, Reconnect url)]) np st"
    using I(3) unfolding entries_ok_def by simp
  moreover have "timers_ok mid pend (tms @ [(due, Reconnect url)]) np"
    using I(5) unfolding timers_ok_def by simp
  ultimately show ?thesis using I by simp
qed

lemma inv_core_step:
  assumes "core_step t c c'" "inv_core c"
  shows "inv_core c'"
  using assms
proof (induction rule: core_step.induct)
  case (same c)
  then show ?case .
next
  case (response k pend e mid tms np st ids out)
  then show ?case using inv_core_response by blast
next
  case (bump mid pend tms np st ids)
  then show ?case by (rule inv_core_bump)
next
  case (register mid pend tms np st ids t)
  then show ?case by (rule inv_core_register)
next
  case (timeout k tms due rid p pend mid np st ids)
  then show ?case using inv_core_timeout by blast
next
  case (expired k tms due rid p pend mid np st ids)
  then show ?case using inv_core_expired by blast
next
  case (reconnect k tms due url mid pend np st ids)
  then show ?case using inv_core_reconnect by blast
next
  case (schedule due t mid pend tms np st ids url)
  then show ?case using inv_core_schedule by blast
qed

section \<open>What each operation does to the correlation state\<close>

lemma request_ids_snoc [simp]: "request_ids (frames @ [f]) = request_ids frames @ request_id f"
  by (simp add: request_ids_def)

lemma core_addLog [simp]: "core (addLog msg type w) = core w"
  by (simp add: addLog_def core_def split: option.splits)

lemma core_updateConnectionStatus [simp]:
  "core (updateConnectionStatus connected msg w) = core w"
  by (simp add: updateConnectionStatus_def core_def Let_def split: option.splits)

lemma core_deliver [simp]: "core (deliver name outcome w) = core w"
  by (simp add: deliver_def core_def)

lemma core_showNotification [simp]: "core (showNotification m d u w) = core w"
  by (simp add: showNotification_def core_def)

lemma core_connect [simp]: "core (connect url w) = core w"
proof -
  have "core (w\<lparr>ws := Some CONNECTING\<rparr>) = core w" for w by (simp add: core_def)
  then show ?thesis by (simp add: connect_def Let_def split: option.splits)
qed

lemma sendMessage_closed:
  "ws w \<noteq> Some OPEN \<Longrightarrow>
   sendMessage msg w = (Rejected (Error ''Connection not ready''),
                        addLog ''Cannot send message: connection not ready'' ''error'' w)"
  by (auto simp: sendMessage_def)

lemma sendMessage_notification:
  "ws w = Some OPEN \<Longrightarrow> field msg ''id'' = JUndefined \<Longrightarrow>
   sendMessage msg w = (Resolved JUndefined, w\<lparr>sent := sent w @ [JObj msg]\<rparr>)"
  by (simp add: sendMessage_def)

lemma sendMessage_request:
  "ws w = Some OPEN \<Longrightarrow> field msg ''id'' \<noteq> JUndefined \<Longrightarrow>
   sendMessage msg w =
     (Pending (nextPromise w),
      w\<lparr>sent := sent w @ [JObj msg],
         nextPromise := Suc (nextPromise w),
         pendingRequests := (pendingRequests w)
            (field msg ''id'' \<mapsto> \<lparr>promise = nextPromise w, timestamp = now w\<rparr>),
         timers := timers w @ [(now w + 30000, RequestTimeout (field msg ''id'') (nextPromise w))]\<rparr>)"
  by (simp add: sendMessage_def Let_def)

lemma sendMessage_no_id:
  assumes "field msg ''id'' = JUndefined"
  shows "core (snd (sendMessage msg w)) = core w"
    and "fst (sendMessage msg w) \<noteq> Pending p"
proof -
  show "core (snd (sendMessage msg w)) = core w"
  proof (cases "ws w = Some OPEN")
    case True
    with assms show ?thesis by (simp add: sendMessage_notification core_def)
  next
    case False
    then show ?thesis by (simp add: sendMessage_closed)
  qed
  show "fst (sendMessage msg w) \<noteq> Pending p"
    using assms by (cases "ws w = Some OPEN") (simp_all add: sendMessage_notification sendMessage_closed)
qed

lemma core_awaiting [simp]: "core (w\<lparr>awaiting := a\<rparr>) = core w"
  by (simp add: core_def)

lemma await_promise_core:
  assumes "\<And>out. core (rest out w) = core w"
  shows "core (await_promise pr k rest w) = core w"
  using assms by (cases pr) (simp_all add: await_promise_def)

lemma core_resume_openDocument [simp]: "core (resume_openDocument out w) = core w"
  by (simp add: resume_openDocument_def split: sum.splits)

lemma core_resume_changeDocument [simp]: "core (resume_changeDocument out w) = core w"
  by (simp add: resume_changeDocument_def split: sum.splits)

lemma core_send_await:
  assumes "field msg ''id'' = JUndefined" "\<And>out w'. core (rest out w') = core w'"
  shows "core (case sendMessage msg w of (pr, w1) \<Rightarrow> await_promise pr k rest w1) = core w"
proof -
  obtain pr w1 where s: "sendMessage msg w = (pr, w1)" by (cases "sendMessage msg w")
  with sendMessage_no_id(1) [OF assms(1), of w] have "core w1 = core w" by simp
  with s assms(2) show ?thesis by (simp add: await_promise_core)
qed

lemma core_openDocument [simp]: "core (openDocument uri languageId version text w) = core w"
  unfolding openDocument_def
  by (simp add: core_send_await field_def del: split_paired_All)

lemma core_changeDocument [simp]: "core (changeDocument uri version changes w) = core w"
  unfolding changeDocument_def
  by (simp add: core_send_await field_def)

lemma core_integrations [simp]: "core (w\<lparr>integrations := a\<rparr>) = core w"
  by (simp add: core_def)

lemma core_setupEditorIntegration [simp]: "core (setupEditorIntegration w) = core w"
  by (simp add: setupEditorIntegration_def Let_def split: option.splits prod.splits)

lemma core_lspReady [simp]: "core (w\<lparr>lspReady := a\<rparr>) = core w"
  by (simp add: core_def)

lemma core_resume_initialized [simp]: "core (resume_initialized out w) = core w"
  by (simp add: resume_initialized_def split: sum.splits)

lemma core_serverCapabilities [simp]: "core (w\<lparr>serverCapabilities := a\<rparr>) = core w"
  by (simp add: core_def)

lemma core_resume_initialize [simp]: "core (resume_initialize out w) = core w"
proof -
  have "core (case sendMessage [(''jsonrpc'', JStr ''2.0''), (''method'', JStr ''initialized''),
                       (''params'', JObj [])] w' of (pr, w2) \<Rightarrow> await_promise pr KInitialized resume_initialized w2)
        = core w'" for w'
    by (rule core_send_await) (simp_all add: field_def)
  then show ?thesis
    by (simp add: resume_initialize_def Let_def split: sum.splits)
qed

lemma core_resume_getCompletions [simp]: "core (resume_getCompletions position out w) = core w"
  by (simp add: resume_getCompletions_def split: sum.splits)

lemma core_resume_getHover [simp]: "core (resume_getHover out w) = core w"
  by (simp add: resume_getHover_def split: sum.splits)

lemma core_resume [simp]: "core (resume k out w) = core w"
  by (cases k) simp_all

lemma core_settle:
  "core (settle p out w) =
     (messageId w, pendingRequests w, timers w, nextPromise w, settled w @ [(p, out)], request_ids (sent w))"
proof -
  have "core (w\<lparr>settled := s\<rparr>) = (messageId w, pendingRequests w, timers w, nextPromise w, s, request_ids (sent w))" for s
    by (simp add: core_def)
  then show ?thesis
    by (simp add: settle_def Let_def split: option.splits)
qed

lemma settled_of_core: "core w' = core w \<Longrightarrow> settled w' = settled w"
  by (simp add: core_def)

lemma settled_settle: "settled (settle p out w) = settled w @ [(p, out)]"
  using core_settle [of p out w] by (simp add: core_def)

lemma core_messageId:
  "core (w\<lparr>messageId := m\<rparr>) = (m, pendingRequests w, timers w, nextPromise w, settled w, request_ids (sent w))"
  by (simp add: core_def)

lemma request_step:
  assumes id: "field msg ''id'' = JNum (messageId w + 1)"
    and rest: "\<And>out w'. core (rest out w') = core w'"
  shows "core_step (now w) (core w)
           (core (case sendMessage msg (w\<lparr>messageId := messageId w + 1\<rparr>) of
                    (pr, w2) \<Rightarrow> await_promise pr k rest w2))"
proof (cases "ws w = Some OPEN")
  case True
  let ?w1 = "w\<lparr>messageId := messageId w + 1\<rparr>"
  from True have "ws ?w1 = Some OPEN" by simp
  from sendMessage_request [OF this, of msg] id
  have "core (case sendMessage msg ?w1 of (pr, w2) \<Rightarrow> await_promise pr k rest w2) =
          (messageId w + 1,
           (pendingRequests w)(JNum (messageId w + 1) \<mapsto> \<lparr>promise = nextPromise w, timestamp = now w\<rparr>),
           timers w @ [(now w + 30000, RequestTimeout (JNum (messageId w + 1)) (nextPromise w))],
           Suc (nextPromise w), settled w, request_ids (sent w) @ [messageId w + 1])"
    by (simp add: await_promise_def) (simp add: core_def field_def)
  moreover have "core w = (messageId w, pendingRequests w, timers w, nextPromise w, settled w, request_ids (sent w))"
    by (simp add: core_def)
  ultimately show ?thesis by (simp add: core_step.register)
next
  case False
  let ?w1 = "w\<lparr>messageId := messageId w + 1\<rparr>"
  from False have "ws ?w1 \<noteq> Some OPEN" by simp
  from sendMessage_closed [OF this, of msg]
  have "core (case sendMessage msg ?w1 of (pr, w2) \<Rightarrow> await_promise pr k rest w2) = core ?w1"
    by (simp add: await_promise_def rest)
  moreover have "core w = (messageId w, pendingRequests w, timers w, nextPromise w, settled w, request_ids (sent w))"
    by (simp add: core_def)
  ultimately show ?thesis by (simp add: core_messageId core_step.bump)
qed

lemma initialize_step: "core_step (now w) (core w) (core (initialize w))"
  unfolding initialize_def Let_def
  by (simp, rule request_step) (simp_all add: initialize_request_def field_def)

lemma getCompletions_step: "core_step (now w) (core w) (core (getCompletions uri position w))"
proof (cases "\<not> isConnected w \<or> \<not> truthy (js_get_opt (serverCapabilities w) ''completionProvider'')")
  case True
  then show ?thesis by (simp add: getCompletions_def core_step.same)
next
  case False
  then show ?thesis
    unfolding getCompletions_def Let_def
    by (simp, intro request_step) (simp_all add: field_def)
qed

lemma getHover_step: "core_step (now w) (core w) (core (getHover uri position w))"
proof (cases "\<not> isConnected w \<or> \<not> truthy (js_get_opt (serverCapabilities w) ''hoverProvider'')")
  case True
  then show ?thesis by (simp add: getHover_def core_step.same)
next
  case False
  then show ?thesis
    unfolding getHover_def Let_def
    by (simp, intro request_step) (simp_all add: field_def)
qed

lemma core_handleDiagnostics:
  assumes "handleDiagnostics params w = Inr w'"
  shows "core w' = core w"
proof -
  have m: "core (w\<lparr>markerCalls := x\<rparr>) = core w" for x by (simp add: core_def)
  from assms show ?thesis
    by (auto simp: handleDiagnostics_def bnd_def Let_def m split: if_splits sum.splits json.splits)
qed

lemma bnd_Inr: "bnd r f = Inr y \<longleftrightarrow> (\<exists>x. r = Inr x \<and> f x = Inr y)"
  by (cases r) (simp_all add: bnd_def)

lemma handleMessage_cases:
  assumes "handleMessage msg w = Inr w'"
  obtains (response) rid request out where "truthy rid" "pendingRequests w rid = Some request"
      "w' = settle (promise request) out (w\<lparr>pendingRequests := (pendingRequests w)(rid := None)\<rparr>)"
    | (ignored) "w' = w"
    | (diagnostics) params where "handleDiagnostics params w = Inr w'"
    | (log) m t where "w' = addLog m t w"
    | (notification) m d u where "w' = showNotification m d u w"
proof -
  from assms obtain rid where rid: "js_get msg ''id'' = Inr rid"
    and body: "(case (if truthy rid then lookup_parsed (pendingRequests w) rid else None) of
         Some request \<Rightarrow>
           (let w1 = w\<lparr>pendingRequests := (pendingRequests w)(rid := None)\<rparr> in
            bnd (js_get msg ''error'') (\<lambda>err.
              if truthy err then
                bnd (js_get err ''message'') (\<lambda>m.
                  Inr (settle (promise request)
                         (Inl (Error (to_string (if truthy m then m else JStr ''LSP error'')))) w1))
              else
                bnd (js_get msg ''result'') (\<lambda>result.
                  Inr (settle (promise request) (Inr result) w1))))
       | None \<Rightarrow>
           bnd (js_get msg ''method'') (\<lambda>method.
             if \<not> truthy method then Inr w
             else if method = JStr ''textDocument/publishDiagnostics'' then
               bnd (js_get msg ''params'') (\<lambda>params. handleDiagnostics params w)
             else if method = JStr ''window/logMessage'' then
               bnd (js_path msg [''params'', ''message'']) (\<lambda>m.
               bnd (js_path msg [''params'', ''type'']) (\<lambda>t.
                 Inr (addLog (to_string m) (getLogLevel t) w)))
             else if method = JStr ''window/showMessage'' then
               bnd (js_path msg [''params'', ''message'']) (\<lambda>m.
               bnd (js_path msg [''params'', ''type'']) (\<lambda>t.
                 Inr (showNotification m (JNum 3000) (JBool (t = JNum 1)) w)))
             else Inr (addLog (''Unhandled notification: '' @ to_string method) ''info'' w))) = Inr w'"
    unfolding handleMessage_def bnd_Inr by blast
  show thesis
  proof (cases "if truthy rid then lookup_parsed (pendingRequests w) rid else None")
    case None
    with body obtain mth where m: "js_get msg ''method'' = Inr mth"
      and b: "(if \<not> truthy mth then Inr w
             else if mth = JStr ''textDocument/publishDiagnostics'' then
               bnd (js_get msg ''params'') (\<lambda>params. handleDiagnostics params w)
             else if mth = JStr ''window/logMessage'' then
               bnd (js_path msg [''params'', ''message'']) (\<lambda>m.
               bnd (js_path msg [''params'', ''type'']) (\<lambda>t.
                 Inr (addLog (to_string m) (getLogLevel t) w)))
             else if mth = JStr ''window/showMessage'' then
               bnd (js_path msg [''params'', ''message'']) (\<lambda>m.
               bnd (js_path msg [''params'', ''type'']) (\<lambda>t.
                 Inr (showNotification m (JNum 3000) (JBool (t = JNum 1)) w)))
             else Inr (addLog (''Unhandled notification: '' @ to_string mth) ''info'' w)) = Inr w'"
      by (auto simp: bnd_Inr)
    show thesis
    proof (cases "\<not> truthy mth")
      case True
      with b ignored show thesis by simp
    next
      case nf: False
      show thesis
      proof (cases "mth = JStr ''textDocument/publishDiagnostics''")
        case True
        with nf b diagnostics show thesis by (auto simp: bnd_Inr)
      next
        case nd: False
        show thesis
        proof (cases "mth = JStr ''window/logMessage''")
          case True
          with nf nd b log show thesis by (auto simp: bnd_Inr)
        next
          case nl: False
          show thesis
          proof (cases "mth = JStr ''window/showMessage''")
            case True
            with nf nd nl b notification show thesis by (auto simp: bnd_Inr)
          next
            case False
            with nf nd nl b have "w' = addLog (''Unhandled notification: '' @ to_string mth) ''info'' w"
              by simp
            with log show thesis by blast
          qed
        qed
      qed
    qed
  next
    case (Some request)
    then have t: "truthy rid" and l: "pendingRequests w rid = Some request"
      by (auto simp: lookup_parsed_def split: if_splits json.splits)
    let ?w1 = "w\<lparr>pendingRequests := (pendingRequests w)(rid := None)\<rparr>"
    from Some body obtain err where err: "js_get msg ''error'' = Inr err"
      and b: "(if truthy err then
                bnd (js_get err ''message'') (\<lambda>m.
                  Inr (settle (promise request)
                         (Inl (Error (to_string (if truthy m then m else JStr ''LSP error'')))) ?w1))
              else
                bnd (js_get msg ''result'') (\<lambda>result.
                  Inr (settle (promise request) (Inr result) ?w1))) = Inr w'"
      by (auto simp: bnd_Inr Let_def)
    show thesis
    proof (cases "truthy err")
      case True
      with b obtain e where "w' = settle (promise request) (Inl e) ?w1" by (auto simp: bnd_Inr)
      with t l response show thesis by blast
    next
      case False
      with b obtain v where "w' = settle (promise request) (Inr v) ?w1" by (auto simp: bnd_Inr)
      with t l response show thesis by blast
    qed
  qed
qed

lemma handleMessage_step:
  assumes "handleMessage msg w = Inr w'"
  shows "core_step (now w) (core w) (core w')"
  using assms
proof (cases rule: handleMessage_cases)
  case (response rid request out)
  let ?w1 = "w\<lparr>pendingRequests := (pendingRequests w)(rid := None)\<rparr>"
  from response(3) have "core w' = (messageId w, (pendingRequests w)(rid := None), timers w, nextPromise w,
                 settled w @ [(promise request, out)], request_ids (sent w))"
    by (simp add: core_settle)
  moreover have "core w = (messageId w, pendingRequests w, timers w, nextPromise w, settled w, request_ids (sent w))"
    by (simp add: core_def)
  ultimately show ?thesis
    using core_step.response [of rid "pendingRequests w" request "now w" "messageId w" "timers w"
        "nextPromise w" "settled w" "request_ids (sent w)" out] response(1,2)
    by simp
next
  case ignored
  then show ?thesis by (simp add: core_step.same)
next
  case (diagnostics params)
  then show ?thesis by (simp add: core_handleDiagnostics core_step.same)
next
  case (log m t)
  then show ?thesis by (simp add: core_step.same)
next
  case (notification m d u)
  then show ?thesis by (simp add: core_step.same)
qed

lemma onmessage_step: "core_step (now w) (core w) (core (onmessage parsed w))"
  by (auto simp: onmessage_def core_step.same handleMessage_step split: sum.splits)

lemma addLog_fields [simp]:
  "timers (addLog m ty w) = timers w"
  "now (addLog m ty w) = now w"
  "reconnectAttempts (addLog m ty w) = reconnectAttempts w"
  "maxReconnectAttempts (addLog m ty w) = maxReconnectAttempts w"
  by (simp_all add: addLog_def split: option.splits)

lemma updateConnectionStatus_fields [simp]:
  "timers (updateConnectionStatus c m w) = timers w"
  "now (updateConnectionStatus c m w) = now w"
  "reconnectAttempts (updateConnectionStatus c m w) = reconnectAttempts w"
  "maxReconnectAttempts (updateConnectionStatus c m w) = maxReconnectAttempts w"
  by (simp_all add: updateConnectionStatus_def Let_def split: option.splits)

lemma onopen_step: "core_step (now w) (core w) (core (onopen w))"
proof -
  let ?w4 = "addLog ''WebSocket connection established'' ''success''
      (updateConnectionStatus True ''Connected'' (w\<lparr>isConnected := True, reconnectAttempts := 0\<rparr>))"
  have "core ?w4 = core w" "now ?w4 = now w" by (simp, simp add: core_def) simp
  with initialize_step [of ?w4] show ?thesis by (simp add: onopen_def Let_def)
qed

lemma onclose_step: "core_step (now w) (core w) (core (onclose url code reason w))"
proof -
  let ?w3 = "addLog (''Connection closed: '' @ to_string code @ '' - '' @ to_string reason) ''error''
     (updateConnectionStatus False ''Disconnected'' (w\<lparr>isConnected := False\<rparr>))"
  have c3: "core ?w3 = core w" by (simp, simp add: core_def)
  have cw: "core w = (messageId w, pendingRequests w, timers w, nextPromise w, settled w, request_ids (sent w))"
    by (simp add: core_def)
  show ?thesis
  proof (cases "reconnectAttempts ?w3 < maxReconnectAttempts ?w3")
    case False
    then have "onclose url code reason w = ?w3" by (simp add: onclose_def Let_def)
    with c3 show ?thesis by (simp add: core_step.same)
  next
    case True
    have a: "core (w'\<lparr>reconnectAttempts := x\<rparr>) = core w'" for w' x by (simp add: core_def)
    have t: "core (w'\<lparr>timers := x\<rparr>) =
             (messageId w', pendingRequests w', x, nextPromise w', settled w', request_ids (sent w'))" for w' x
      by (simp add: core_def)
    define w5 where "w5 = addLog (''Reconnecting in '' @ nat_to_string (reconnect_delay (Suc (reconnectAttempts ?w3))) @ ''ms... (''
                             @ nat_to_string (Suc (reconnectAttempts ?w3)) @ ''/''
                             @ nat_to_string (maxReconnectAttempts ?w3) @ '')'') ''info''
                      (?w3\<lparr>reconnectAttempts := reconnectAttempts ?w3 + 1\<rparr>)"
    have c5: "core w5 = core w" unfolding w5_def using c3 by (simp add: a)
    from True have "onclose url code reason w =
        w5\<lparr>timers := timers w5 @ [(now w5 + reconnect_delay (Suc (reconnectAttempts ?w3)), Reconnect url)]\<rparr>"
      unfolding w5_def by (simp add: onclose_def Let_def)
    then have "core (onclose url code reason w) =
         (messageId w5, pendingRequests w5, timers w5 @ [(now w5 + reconnect_delay (Suc (reconnectAttempts ?w3)), Reconnect url)],
          nextPromise w5, settled w5, request_ids (sent w5))"
      by (simp only: t)
    moreover have "now w5 = now w" unfolding w5_def by simp
    moreover have "reconnect_delay (Suc (reconnectAttempts ?w3)) \<le> 30000"
      by (simp add: reconnect_delay_def)
    ultimately show ?thesis using c5 cw by (simp add: core_def core_step.schedule)
  qed
qed

lemma onerror_step: "core_step (now w) (core w) (core (onerror m w))"
  by (simp add: onerror_def core_step.same)

lemma fire_timer_step: "core_step (now w) (core w) (core (fire_timer k w))"
proof (cases "k < length (timers w) \<and> fst (timers w ! k) \<le> now w")
  case False
  then show ?thesis by (auto simp: fire_timer_def core_step.same)
next
  case True
  let ?w1 = "w\<lparr>timers := take k (timers w) @ drop (Suc k) (timers w)\<rparr>"
  have cw: "core w = (messageId w, pendingRequests w, timers w, nextPromise w, settled w, request_ids (sent w))"
    by (simp add: core_def)
  have c1: "core ?w1 = (messageId w, pendingRequests w, remove_nth k (timers w), nextPromise w, settled w, request_ids (sent w))"
    by (simp add: core_def remove_nth_def)
  obtain due cb where tk: "timers w ! k = (due, cb)" by (cases "timers w ! k")
  from True tk have f: "fire_timer k w = run_callback cb ?w1" by (simp add: fire_timer_def)
  show ?thesis
  proof (cases cb)
    case (Reconnect url)
    with f c1 have "core (fire_timer k w) =
       (messageId w, pendingRequests w, remove_nth k (timers w), nextPromise w, settled w, request_ids (sent w))"
      by simp
    with cw core_step.reconnect [of k "timers w" due url] True tk Reconnect show ?thesis by simp
  next
    case (RequestTimeout rid p)
    show ?thesis
    proof (cases "pendingRequests w rid = None")
      case True
      with f c1 RequestTimeout have "core (fire_timer k w) =
         (messageId w, pendingRequests w, remove_nth k (timers w), nextPromise w, settled w, request_ids (sent w))"
        by simp
      with cw core_step.expired [of k "timers w" due rid p "pendingRequests w"] \<open>k < length (timers w) \<and> _\<close> tk RequestTimeout True
      show ?thesis by simp
    next
      case False
      with f RequestTimeout have "core (fire_timer k w) =
         (messageId w, (pendingRequests w)(rid := None), remove_nth k (timers w), nextPromise w,
          settled w @ [(p, Inl (Error ''Request timeout''))], request_ids (sent w))"
        by (simp add: core_settle remove_nth_def)
      with cw core_step.timeout [of k "timers w" due rid p "pendingRequests w"] \<open>k < length (timers w) \<and> _\<close> tk RequestTimeout False
      show ?thesis by simp
    qed
  qed
qed

lemma step_core: "core_step (now w) (core w) (core (step w e))"
proof (cases e)
  case (SetReadyState rs)
  then show ?thesis by (simp add: core_def core_step.same split: option.splits)
next
  case (SetGlobals ed l d)
  then show ?thesis by (simp add: core_def core_step.same)
next
  case (Advance dt)
  then show ?thesis by (simp add: core_def core_step.same)
qed (simp_all add: core_step.same initialize_step getCompletions_step getHover_step onmessage_step
      onopen_step onclose_step onerror_step fire_timer_step)

subsection \<open>Over a run\<close>

lemma inv_core_constructor: "inv_core (core (constructor w))"
  by (simp add: core_def constructor_def request_ids_def keys_ok_def entries_ok_def entries_inj_def
      timers_ok_def promises_ok_def wire_ok_def settle_count_def)

lemma inv_core_run: "inv_core (core w) \<Longrightarrow> inv_core (core (run w es))"
proof (induction es arbitrary: w)
  case Nil
  then show ?case by (simp add: run_def)
next
  case (Cons e es)
  from Cons.prems step_core [of w e] have "inv_core (core (step w e))" by (rule inv_core_step [rotated])
  from Cons.IH [OF this] show ?case by (simp add: run_def)
qed

lemma inv_core_reachable: "inv_core (core (run (constructor w0) es))"
  by (rule inv_core_run) (rule inv_core_constructor)

lemma reachable_facts:
  assumes "w = run (constructor w0) es"
  shows "0 \<le> messageId w"
    and "keys_ok (messageId w) (pendingRequests w)"
    and "entries_ok (pendingRequests w) (timers w) (nextPromise w) (settled w)"
    and "entries_inj (pendingRequests w)"
    and "timers_ok (messageId w) (pendingRequests w) (timers w) (nextPromise w)"
    and "promises_ok (pendingRequests w) (nextPromise w) (settled w)"
    and "wire_ok (messageId w) (request_ids (sent w))"
  using inv_core_reachable [of w0 es] assms by (simp_all add: core_def)

lemma run_append: "run w (es @ es') = run (run w es) es'"
  by (simp add: run_def)

lemma core_step_settled:
  assumes "core_step t c c'"
  shows "set (fst (snd (snd (snd (snd c))))) \<subseteq> set (fst (snd (snd (snd (snd c')))))"
  using assms by (induction rule: core_step.induct) auto

lemma core_step_promises:
  assumes "core_step t c c'"
  shows "fst (snd (snd (snd c))) \<le> fst (snd (snd (snd c')))"
  using assms by (induction rule: core_step.induct) auto

lemma nextPromise_run: "nextPromise w \<le> nextPromise (run w es)"
proof (induction es arbitrary: w)
  case Nil
  then show ?case by (simp add: run_def)
next
  case (Cons e es)
  from core_step_promises [OF step_core [of w e]] have "nextPromise w \<le> nextPromise (step w e)"
    by (simp add: core_def)
  with Cons [of "step w e"] show ?case by (simp add: run_def)
qed

lemma core_step_counter:
  assumes "core_step t c c'"
  shows "(fst c' = fst c \<and> snd (snd (snd (snd (snd c')))) = snd (snd (snd (snd (snd c)))))
       \<or> (fst c' = fst c + 1
           \<and> (snd (snd (snd (snd (snd c')))) = snd (snd (snd (snd (snd c))))
              \<or> snd (snd (snd (snd (snd c')))) = snd (snd (snd (snd (snd c)))) @ [fst c + 1]))"
  using assms by (induction rule: core_step.induct) auto

lemma step_counter:
  "(messageId (step w e) = messageId w \<and> request_ids (sent (step w e)) = request_ids (sent w))
   \<or> (messageId (step w e) = messageId w + 1
       \<and> (request_ids (sent (step w e)) = request_ids (sent w)
          \<or> request_ids (sent (step w e)) = request_ids (sent w) @ [messageId w + 1]))"
  using core_step_counter [OF step_core [of w e]] by (simp add: core_def)

section \<open>Capabilities change only with a result\<close>

lemma caps_addLog [simp]: "serverCapabilities (addLog m t w) = serverCapabilities w"
  by (simp add: addLog_def split: option.splits)

lemma caps_updateConnectionStatus [simp]:
  "serverCapabilities (updateConnectionStatus c m w) = serverCapabilities w"
  by (simp add: updateConnectionStatus_def Let_def split: option.splits)

lemma caps_deliver [simp]: "serverCapabilities (deliver n out w) = serverCapabilities w"
  by (simp add: deliver_def)

lemma caps_showNotification [simp]: "serverCapabilities (showNotification m d u w) = serverCapabilities w"
  by (simp add: showNotification_def)

lemma caps_connect [simp]: "serverCapabilities (connect url w) = serverCapabilities w"
  by (simp add: connect_def Let_def split: option.splits)

lemma caps_sendMessage [simp]: "serverCapabilities (snd (sendMessage msg w)) = serverCapabilities w"
  by (simp add: sendMessage_def Let_def)

lemma caps_send_await:
  assumes "\<And>out w'. serverCapabilities (rest out w') = serverCapabilities w'"
  shows "serverCapabilities (case sendMessage msg w of (pr, w1) \<Rightarrow> await_promise pr k rest w1)
           = serverCapabilities w"
proof -
  obtain pr w1 where s: "sendMessage msg w = (pr, w1)" by (cases "sendMessage msg w")
  with caps_sendMessage [of msg w] have "serverCapabilities w1 = serverCapabilities w" by simp
  with s assms show ?thesis by (cases pr) (simp_all add: await_promise_def)
qed

lemma caps_resume_openDocument [simp]:
  "serverCapabilities (resume_openDocument out w) = serverCapabilities w"
  by (simp add: resume_openDocument_def split: sum.splits)

lemma caps_resume_changeDocument [simp]:
  "serverCapabilities (resume_changeDocument out w) = serverCapabilities w"
  by (simp add: resume_changeDocument_def split: sum.splits)

lemma caps_openDocument [simp]:
  "serverCapabilities (openDocument uri languageId version text w) = serverCapabilities w"
  unfolding openDocument_def by (simp add: caps_send_await)

lemma caps_changeDocument [simp]:
  "serverCapabilities (changeDocument uri version changes w) = serverCapabilities w"
  unfolding changeDocument_def by (simp add: caps_send_await)

lemma caps_setupEditorIntegration [simp]:
  "serverCapabilities (setupEditorIntegration w) = serverCapabilities w"
  by (simp add: setupEditorIntegration_def Let_def split: option.splits prod.splits)

lemma caps_resume_initialized [simp]:
  "serverCapabilities (resume_initialized out w) = serverCapabilities w"
  by (simp add: resume_initialized_def split: sum.splits)

lemma caps_resume_getCompletions [simp]:
  "serverCapabilities (resume_getCompletions position out w) = serverCapabilities w"
  by (simp add: resume_getCompletions_def split: sum.splits)

lemma caps_resume_getHover [simp]:
  "serverCapabilities (resume_getHover out w) = serverCapabilities w"
  by (simp add: resume_getHover_def split: sum.splits)

lemma caps_resume_rejected [simp]:
  "serverCapabilities (resume k (Inl e) w) = serverCapabilities w"
  by (cases k) (simp_all add: resume_initialize_def)

text \<open>Only a promise resolved with a result can change the capabilities.\<close>

lemma caps_settle_rejected [simp]:
  "serverCapabilities (settle p (Inl e) w) = serverCapabilities w"
  by (simp add: settle_def Let_def split: option.splits)

lemma request_caps:
  assumes "field msg ''id'' \<noteq> JUndefined"
    and "\<And>e w'. serverCapabilities (rest (Inl e) w') = serverCapabilities w'"
  shows "serverCapabilities (case sendMessage msg w of (pr, w2) \<Rightarrow> await_promise pr k rest w2)
           = serverCapabilities w"
proof (cases "ws w = Some OPEN")
  case True
  from sendMessage_request [OF True assms(1)] show ?thesis by (simp add: await_promise_def)
next
  case False
  from sendMessage_closed [OF False, of msg] assms(2) show ?thesis by (simp add: await_promise_def)
qed

lemma caps_initialize [simp]: "serverCapabilities (initialize w) = serverCapabilities w"
proof -
  have r: "serverCapabilities (resume_initialize (Inl e) w') = serverCapabilities w'" for e w'
    by (simp add: resume_initialize_def)
  show ?thesis
    unfolding initialize_def Let_def
    by (simp, subst request_caps) (simp_all add: initialize_request_def field_def r)
qed

lemma caps_getCompletions [simp]:
  "serverCapabilities (getCompletions uri position w) = serverCapabilities w"
proof (cases "\<not> isConnected w \<or> \<not> truthy (js_get_opt (serverCapabilities w) ''completionProvider'')")
  case True
  then show ?thesis by (simp add: getCompletions_def)
next
  case False
  then show ?thesis
    unfolding getCompletions_def Let_def
    by (simp, subst request_caps) (simp_all add: field_def)
qed

lemma caps_getHover [simp]:
  "serverCapabilities (getHover uri position w) = serverCapabilities w"
proof (cases "\<not> isConnected w \<or> \<not> truthy (js_get_opt (serverCapabilities w) ''hoverProvider'')")
  case True
  then show ?thesis by (simp add: getHover_def)
next
  case False
  then show ?thesis
    unfolding getHover_def Let_def
    by (simp, subst request_caps) (simp_all add: field_def)
qed

lemma caps_handleDiagnostics:
  assumes "handleDiagnostics params w = Inr w'"
  shows "serverCapabilities w' = serverCapabilities w"
  using assms
  by (auto simp: handleDiagnostics_def bnd_def Let_def split: if_splits sum.splits json.splits)

lemma caps_handleMessage:
  assumes "handleMessage msg w = Inr w'"
  shows "serverCapabilities w' = serverCapabilities w \<or> result_received w'"
  using assms
proof (cases rule: handleMessage_cases)
  case (response rid request out)
  show ?thesis
  proof (cases out)
    case (Inl e)
    with response(3) show ?thesis by simp
  next
    case (Inr v)
    with response(3) have "(promise request, Inr v) \<in> set (settled w')" by (simp add: settled_settle)
    then show ?thesis unfolding result_received_def by force
  qed
next
  case ignored
  then show ?thesis by simp
next
  case (diagnostics params)
  then show ?thesis by (simp add: caps_handleDiagnostics)
next
  case (log m t)
  then show ?thesis by simp
next
  case (notification m d u)
  then show ?thesis by simp
qed

lemma caps_fire_timer [simp]: "serverCapabilities (fire_timer k w) = serverCapabilities w"
proof (cases "k < length (timers w) \<and> fst (timers w ! k) \<le> now w")
  case False
  then show ?thesis by (auto simp: fire_timer_def)
next
  case True
  then show ?thesis by (cases "snd (timers w ! k)") (simp_all add: fire_timer_def)
qed

lemma caps_step: "serverCapabilities (step w e) = serverCapabilities w \<or> result_received (step w e)"
proof (cases e)
  case (OnMessage parsed)
  then show ?thesis
    using caps_handleMessage by (auto simp: onmessage_def split: sum.splits)
next
  case (SetReadyState rs)
  then show ?thesis by (simp split: option.splits)
qed (simp_all add: onopen_def onclose_def onerror_def Let_def)

lemma result_received_step: "result_received w \<Longrightarrow> result_received (step w e)"
proof -
  assume n: "result_received w"
  from core_step_settled [OF step_core [of w e]] have "set (settled w) \<subseteq> set (settled (step w e))"
    by (simp add: core_def)
  with n show ?thesis unfolding result_received_def by blast
qed

lemma caps_run:
  assumes "serverCapabilities w = JNull \<or> result_received w"
  shows "serverCapabilities (run w es) = JNull \<or> result_received (run w es)"
  using assms
proof (induction es arbitrary: w)
  case Nil
  then show ?case by (simp add: run_def)
next
  case (Cons e es)
  from Cons.prems caps_step [of w e] result_received_step [of w e]
  have "serverCapabilities (step w e) = JNull \<or> result_received (step w e)" by auto
  from Cons.IH [OF this] show ?case by (simp add: run_def)
qed

section \<open>The clock, the attempt counter and the timer queue\<close>

lemma onclose_fields:
  "now (onclose u c r w) = now w"
  "maxReconnectAttempts (onclose u c r w) = maxReconnectAttempts w"
  "reconnectAttempts (onclose u c r w) =
     (if reconnectAttempts w < maxReconnectAttempts w then Suc (reconnectAttempts w)
      else reconnectAttempts w)"
  "timers (onclose u c r w) =
     (if reconnectAttempts w < maxReconnectAttempts w
      then timers w @ [(now w + reconnect_delay (Suc (reconnectAttempts w)), Reconnect u)]
      else timers w)"
  by (simp_all add: onclose_def Let_def)

lemma initialize_fields:
  "messageId (initialize w) = messageId w + 1"
  "reconnectAttempts (initialize w) = reconnectAttempts w"
proof -
  let ?w1 = "w\<lparr>messageId := messageId w + 1\<rparr>"
  have i: "field (initialize_request (messageId w + 1)) ''id'' \<noteq> JUndefined"
    by (simp add: initialize_request_def field_def)
  have m: "messageId (addLog x y w') = messageId w'" for x y w'
    by (simp add: addLog_def split: option.splits)
  have "messageId (initialize w) = messageId w + 1 \<and> reconnectAttempts (initialize w) = reconnectAttempts w"
  proof (cases "ws w = Some OPEN")
    case True
    then have "ws ?w1 = Some OPEN" by simp
    from sendMessage_request [OF this i] show ?thesis
      by (simp add: initialize_def Let_def await_promise_def)
  next
    case False
    then have "ws ?w1 \<noteq> Some OPEN" by simp
    from sendMessage_closed [OF this] show ?thesis
      by (simp add: initialize_def Let_def await_promise_def resume_initialize_def m)
  qed
  then show "messageId (initialize w) = messageId w + 1"
    and "reconnectAttempts (initialize w) = reconnectAttempts w" by simp_all
qed

lemma onopen_fields:
  "messageId (onopen w) = messageId w + 1"
  "reconnectAttempts (onopen w) = 0"
proof -
  have m: "messageId (addLog x y w') = messageId w'" for x y w'
    by (simp add: addLog_def split: option.splits)
  have u: "messageId (updateConnectionStatus c x w') = messageId w'" for c x w'
    by (simp add: updateConnectionStatus_def Let_def split: option.splits)
  show "messageId (onopen w) = messageId w + 1"
    by (simp add: onopen_def Let_def initialize_fields m u)
  show "reconnectAttempts (onopen w) = 0"
    by (simp add: onopen_def Let_def initialize_fields)
qed

lemma timing_update [simp]:
  "timing (w\<lparr>messageId := a1\<rparr>) = timing w"
  "timing (w\<lparr>pendingRequests := a2\<rparr>) = timing w"
  "timing (w\<lparr>isConnected := a3\<rparr>) = timing w"
  "timing (w\<lparr>serverCapabilities := a4\<rparr>) = timing w"
  "timing (w\<lparr>ws := a5\<rparr>) = timing w"
  "timing (w\<lparr>lspReady := a6\<rparr>) = timing w"
  "timing (w\<lparr>editor := a7\<rparr>) = timing w"
  "timing (w\<lparr>editorLoaded := a8\<rparr>) = timing w"
  "timing (w\<lparr>errorDetectionEnabled := a9\<rparr>) = timing w"
  "timing (w\<lparr>timers := b1\<rparr>) = timing w"
  "timing (w\<lparr>nextPromise := b2\<rparr>) = timing w"
  "timing (w\<lparr>awaiting := b3\<rparr>) = timing w"
  "timing (w\<lparr>lspLogs := b4\<rparr>) = timing w"
  "timing (w\<lparr>lspBadge := b5\<rparr>) = timing w"
  "timing (w\<lparr>lspIndicator := b6\<rparr>) = timing w"
  "timing (w\<lparr>sent := b7\<rparr>) = timing w"
  "timing (w\<lparr>settled := b8\<rparr>) = timing w"
  "timing (w\<lparr>delivered := b9\<rparr>) = timing w"
  "timing (w\<lparr>markerCalls := c1\<rparr>) = timing w"
  "timing (w\<lparr>notifications := c2\<rparr>) = timing w"
  "timing (w\<lparr>integrations := c3\<rparr>) = timing w"
  by (simp_all add: timing_def)

lemma timing_addLog [simp]: "timing (addLog m ty w) = timing w"
  by (simp add: addLog_def split: option.splits)

lemma timing_updateConnectionStatus [simp]: "timing (updateConnectionStatus c m w) = timing w"
  by (simp add: updateConnectionStatus_def Let_def split: option.splits)

lemma timing_fields:
  assumes "timing w' = timing w"
  shows "now w' = now w" "reconnectAttempts w' = reconnectAttempts w"
    "maxReconnectAttempts w' = maxReconnectAttempts w"
  using assms by (simp_all add: timing_def)

lemma timing_deliver [simp]: "timing (deliver n out w) = timing w"
  by (simp add: deliver_def)

lemma timing_showNotification [simp]: "timing (showNotification m d u w) = timing w"
  by (simp add: showNotification_def)

lemma timing_connect [simp]: "timing (connect url w) = timing w"
  by (simp add: connect_def Let_def split: option.splits)

lemma timing_sendMessage [simp]: "timing (snd (sendMessage msg w)) = timing w"
  by (simp add: sendMessage_def Let_def)

lemma timing_send_await:
  assumes "\<And>out w'. timing (rest out w') = timing w'"
  shows "timing (case sendMessage msg w of (pr, w1) \<Rightarrow> await_promise pr k rest w1) = timing w"
proof -
  obtain pr w1 where s: "sendMessage msg w = (pr, w1)" by (cases "sendMessage msg w")
  with timing_sendMessage [of msg w] have "timing w1 = timing w" by simp
  with s assms show ?thesis by (cases pr) (simp_all add: await_promise_def)
qed

lemma timing_resume_openDocument [simp]: "timing (resume_openDocument out w) = timing w"
  by (simp add: resume_openDocument_def split: sum.splits)

lemma timing_resume_changeDocument [simp]: "timing (resume_changeDocument out w) = timing w"
  by (simp add: resume_changeDocument_def split: sum.splits)

lemma timing_openDocument [simp]: "timing (openDocument uri languageId version text w) = timing w"
  unfolding openDocument_def by (simp add: timing_send_await)

lemma timing_changeDocument [simp]: "timing (changeDocument uri version changes w) = timing w"
  unfolding changeDocument_def by (simp add: timing_send_await)

lemma timing_setupEditorIntegration [simp]: "timing (setupEditorIntegration w) = timing w"
  by (simp add: setupEditorIntegration_def Let_def split: option.splits prod.splits)

lemma timing_resume_initialized [simp]: "timing (resume_initialized out w) = timing w"
  by (simp add: resume_initialized_def split: sum.splits)

lemma timing_resume_initialize [simp]: "timing (resume_initialize out w) = timing w"
  by (simp add: resume_initialize_def Let_def timing_send_await split: sum.splits)

lemma timing_resume_getCompletions [simp]: "timing (resume_getCompletions position out w) = timing w"
  by (simp add: resume_getCompletions_def split: sum.splits)

lemma timing_resume_getHover [simp]: "timing (resume_getHover out w) = timing w"
  by (simp add: resume_getHover_def split: sum.splits)

lemma timing_resume [simp]: "timing (resume k out w) = timing w"
  by (cases k) simp_all

lemma timing_settle [simp]: "timing (settle p out w) = timing w"
  by (simp add: settle_def Let_def split: option.splits)

lemma timing_initialize [simp]: "timing (initialize w) = timing w"
  unfolding initialize_def Let_def by (simp add: timing_send_await)

lemma timing_getCompletions [simp]: "timing (getCompletions uri position w) = timing w"
  unfolding getCompletions_def Let_def by (simp add: timing_send_await)

lemma timing_getHover [simp]: "timing (getHover uri position w) = timing w"
  unfolding getHover_def Let_def by (simp add: timing_send_await)

lemma timing_handleDiagnostics:
  assumes "handleDiagnostics params w = Inr w'"
  shows "timing w' = timing w"
proof -
  from assms show ?thesis
    by (auto simp: handleDiagnostics_def bnd_def Let_def split: if_splits sum.splits json.splits)
qed

lemma timing_handleMessage:
  assumes "handleMessage msg w = Inr w'"
  shows "timing w' = timing w"
  using assms
proof (cases rule: handleMessage_cases)
  case (response rid request out)
  then show ?thesis by simp
next
  case ignored
  then show ?thesis by simp
next
  case (diagnostics params)
  then show ?thesis by (simp add: timing_handleDiagnostics)
next
  case (log m t)
  then show ?thesis by simp
next
  case (notification m d u)
  then show ?thesis by simp
qed

lemma timing_fire_timer [simp]: "timing (fire_timer k w) = timing w"
proof (cases "k < length (timers w) \<and> fst (timers w ! k) \<le> now w")
  case False
  then show ?thesis by (auto simp: fire_timer_def)
next
  case True
  then show ?thesis by (cases "snd (timers w ! k)") (simp_all add: fire_timer_def)
qed

lemma now_fire_timer [simp]: "now (fire_timer k w) = now w"
  by (rule timing_fields(1)) simp

text \<open>
  Only the passing of time moves the clock, and only the open and the close handler
  change the attempt counter.
\<close>

lemma timing_step:
  "timing (step w e) = timing w
   \<or> (\<exists>dt. e = Advance dt) \<or> e = OnOpen \<or> (\<exists>url code reason. e = OnClose url code reason)"
proof (cases e)
  case (OnMessage parsed)
  then show ?thesis
    using timing_handleMessage by (auto simp: onmessage_def split: sum.splits)
next
  case (SetReadyState rs)
  then show ?thesis by (simp split: option.splits)
qed (simp_all add: onerror_def)

lemma now_step: "now (step w e) = now w \<or> (\<exists>dt. e = Advance dt \<and> now (step w e) = now w + dt)"
proof -
  have o: "now (onopen w) = now w"
  proof -
    let ?w4 = "addLog ''WebSocket connection established'' ''success''
      (updateConnectionStatus True ''Connected'' (w\<lparr>isConnected := True, reconnectAttempts := 0\<rparr>))"
    have "now (initialize ?w4) = now ?w4" by (rule timing_fields(1)) simp
    then show ?thesis by (simp add: onopen_def Let_def)
  qed
  from timing_step [of w e] show ?thesis
  proof (elim disjE exE)
    assume "timing (step w e) = timing w"
    then have "now (step w e) = now w" by (rule timing_fields(1))
    then show ?thesis by simp
  next
    fix dt assume "e = Advance dt"
    then show ?thesis by simp
  next
    assume "e = OnOpen"
    with o show ?thesis by simp
  next
    fix url code reason assume "e = OnClose url code reason"
    then show ?thesis by (simp add: onclose_fields)
  qed
qed

lemma attempts_step:
  "(reconnectAttempts (step w e) = reconnectAttempts w
      \<and> maxReconnectAttempts (step w e) = maxReconnectAttempts w)
   \<or> e = OnOpen \<or> (\<exists>url code reason. e = OnClose url code reason)"
proof -
  from timing_step [of w e] show ?thesis
  proof (elim disjE exE)
    assume "timing (step w e) = timing w"
    then show ?thesis by (simp add: timing_def)
  next
    fix dt assume "e = Advance dt"
    then show ?thesis by simp
  qed simp_all
qed

lemma core_step_due:
  assumes "core_step t c c'" "\<forall>x \<in> set (fst (snd (snd c))). fst x \<le> t + 30000"
  shows "\<forall>x \<in> set (fst (snd (snd c'))). fst x \<le> t + 30000"
  using assms
proof (induction rule: core_step.induct)
  case (timeout k tms due rid p pend t mid np st ids)
  then show ?case using set_remove_nth_subset [of k tms] by auto
next
  case (expired k tms due rid p pend t mid np st ids)
  then show ?case using set_remove_nth_subset [of k tms] by auto
next
  case (reconnect k tms due url t mid pend np st ids)
  then show ?case using set_remove_nth_subset [of k tms] by auto
qed auto

lemma due_ok_step: "due_ok w \<Longrightarrow> due_ok (step w e)"
proof -
  assume d: "due_ok w"
  then have "\<forall>x \<in> set (fst (snd (snd (core w)))). fst x \<le> now w + 30000"
    by (simp add: due_ok_def core_def)
  from core_step_due [OF step_core [of w e] this]
  have "\<forall>x \<in> set (timers (step w e)). fst x \<le> now w + 30000" by (simp add: core_def)
  moreover from now_step [of w e] have "now w \<le> now (step w e)" by auto
  ultimately show ?thesis unfolding due_ok_def by fastforce
qed

lemma due_ok_run: "due_ok w \<Longrightarrow> due_ok (run w es)"
proof (induction es arbitrary: w)
  case Nil
  then show ?case by (simp add: run_def)
next
  case (Cons e es)
  from Cons.IH [OF due_ok_step [OF Cons.prems, of e]] show ?case by (simp add: run_def)
qed

lemma timers_fire_head:
  assumes "timers w = x # rest" "fst x \<le> now w"
  shows "timers (fire_timer 0 w) = rest"
proof -
  let ?w1 = "w\<lparr>timers := rest\<rparr>"
  from assms have f: "fire_timer 0 w = run_callback (snd x) ?w1" by (simp add: fire_timer_def)
  have "timers (run_callback cb ?w1) = rest" for cb
  proof (cases cb)
    case (RequestTimeout rid p)
    have "timers (settle p out w') = timers w'" for out w'
      using core_settle [of p out w'] by (simp add: core_def)
    with RequestTimeout show ?thesis by simp
  next
    case (Reconnect url)
    have "timers (connect url w') = timers w'" for w'
      using core_connect [of url w'] by (simp add: core_def)
    with Reconnect show ?thesis by simp
  qed
  with f show ?thesis by simp
qed

lemma timers_fire_all:
  assumes "\<forall>x \<in> set (timers w). fst x \<le> now w"
  shows "timers (run w (replicate (length (timers w)) (FireTimer 0))) = []"
  using assms
proof (induction "length (timers w)" arbitrary: w)
  case 0
  then show ?case by (simp add: run_def)
next
  case (Suc n)
  then obtain x rest where xr: "timers w = x # rest" by (cases "timers w") auto
  with Suc.prems have "fst x \<le> now w" by simp
  from timers_fire_head [OF xr this] have t: "timers (fire_timer 0 w) = rest" .
  with Suc.hyps(2) xr have n: "n = length (timers (fire_timer 0 w))" by simp
  from t xr Suc.prems have "\<forall>x \<in> set (timers (fire_timer 0 w)). fst x \<le> now (fire_timer 0 w)" by simp
  from Suc.hyps(1) [OF n this] n xr t show ?case by (simp add: run_def)
qed

lemma timers_drain:
  assumes "due_ok w"
  shows "timers (run w (drain w)) = []"
proof -
  let ?w1 = "w\<lparr>now := now w + 30000\<rparr>"
  from assms have "\<forall>x \<in> set (timers ?w1). fst x \<le> now ?w1" by (simp add: due_ok_def)
  from timers_fire_all [OF this] show ?thesis by (simp add: drain_def run_def)
qed

lemma drained:
  assumes "w = run (constructor w0) es" "p < nextPromise w"
  shows "pendingRequests (run w (drain w)) = Map.empty"
    and "settle_count p (settled (run w (drain w))) = 1"
proof -
  let ?w' = "run w (drain w)"
  have r: "?w' = run (constructor w0) (es @ drain w)" by (simp add: assms(1) run_append)
  have "due_ok (constructor w0)" by (simp add: due_ok_def constructor_def)
  then have "due_ok w" unfolding assms(1) by (rule due_ok_run)
  then have t: "timers ?w' = []" by (rule timers_drain)
  note I = reachable_facts [OF r]
  show e: "pendingRequests ?w' = Map.empty"
  proof (rule ccontr)
    assume "pendingRequests ?w' \<noteq> Map.empty"
    then obtain k e where "pendingRequests ?w' k = Some e" by (metis not_None_eq)
    with I(3) have "(timestamp e + 30000, RequestTimeout k (promise e)) \<in> set (timers ?w')"
      unfolding entries_ok_def by auto
    with t show False by simp
  qed
  from assms(2) nextPromise_run [of w "drain w"] have "p < nextPromise ?w'" by simp
  with I(6) e show "settle_count p (settled ?w') = 1" unfolding promises_ok_def by auto
qed

section \<open>The runs on the concrete page\<close>

lemmas eval_defs = run_def example_world_def constructor_def connect_def default_url_def onopen_def
  onclose_def reconnect_delay_def
  onmessage_def handleMessage_def bnd_def lookup_parsed_def settle_def resume_initialize_def resume_initialized_def
  setupEditorIntegration_def openDocument_def resume_openDocument_def showNotification_def deliver_def
  getHover_def resume_getHover_def fire_timer_def
  initialize_def initialize_request_def sendMessage_def addLog_def updateConnectionStatus_def
  await_promise_def field_def Let_def keep_last_50.simps settle_count_def request_ids_def

lemma example_run_promises:
  "nextPromise (run (constructor example_world) example_run) = 2"
  "settled (run (constructor example_world) example_run) =
     [(0, Inr (JObj [(''capabilities'', JObj [(''hoverProvider'', JBool True)])])),
      (1, Inl (Error ''Request timeout''))]"
  by (simp_all add: eval_defs example_run_def)

lemma handshake_run_state:
  "settled (run (constructor example_world) handshake_run) = []"
  "pendingRequests (run (constructor example_world) handshake_run) (JNum 1) = Some \<lparr>promise = 0, timestamp = 0\<rparr>"
  "delivered (run (constructor example_world) handshake_run) = []"
  by (simp_all add: eval_defs handshake_run_def)

lemma reconnect_run_ids:
  "request_ids (sent (run (constructor example_world) reconnect_run)) = [1, 2]"
  "messageId (run (constructor example_world) reconnect_run) = 2"
  by (simp_all add: eval_defs reconnect_run_def nat_to_string.simps)

section \<open>Every request is settled exactly once\<close>

lemma fire_timer_request:
  assumes "i < length (timers w)" "timers w ! i = (due, RequestTimeout k p)" "due \<le> now w"
    and "pendingRequests w k \<noteq> None"
  shows "pendingRequests (fire_timer i w) k = None"
    and "settled (fire_timer i w) = settled w @ [(p, Inl (Error ''Request timeout''))]"
proof -
  let ?w1 = "w\<lparr>timers := take i (timers w) @ drop (Suc i) (timers w),
               pendingRequests := (pendingRequests w)(k := None)\<rparr>"
  from assms have f: "fire_timer i w = settle p (Inl (Error ''Request timeout'')) ?w1"
    by (simp add: fire_timer_def)
  from core_settle [of p "Inl (Error ''Request timeout'')" ?w1]
  have "pendingRequests (settle p (Inl (Error ''Request timeout'')) ?w1) = pendingRequests ?w1"
    and "settled (settle p (Inl (Error ''Request timeout'')) ?w1) = settled ?w1 @ [(p, Inl (Error ''Request timeout''))]"
    by (simp_all add: core_def)
  with f show "pendingRequests (fire_timer i w) k = None"
    and "settled (fire_timer i w) = settled w @ [(p, Inl (Error ''Request timeout''))]"
    by simp_all
qed



section \<open>Reconnection delays\<close>

text \<open>
  C2. From an attempt counter of 0 and a ceiling of 5, six close events in a row (the
  first close and the failure of each of the five reconnections), any time apart, schedule
  exactly five reconnections, 2000, 4000, 8000, 16000 and 30000 ms after their close
  event; the sixth close schedules nothing. In general a close event below the ceiling
  increments the counter and schedules one reconnection after
  \<open>min (1000 * 2 ^ counter) 30000\<close> ms, and a close event at the ceiling schedules none
  and leaves the counter as it is. An open event sets the counter to 0, and no other task
  changes the counter or the ceiling.
\<close>

theorem reconnect_delays:
  assumes "reconnectAttempts w = 0" "maxReconnectAttempts w = 5"
  shows "timers (run w [OnClose u c1 r1, Advance d1, OnClose u c2 r2, Advance d2,
                        OnClose u c3 r3, Advance d3, OnClose u c4 r4, Advance d4,
                        OnClose u c5 r5, Advance d5, OnClose u c6 r6])
         = timers w @
           [(now w + 2000, Reconnect u),
            (now w + d1 + 4000, Reconnect u),
            (now w + d1 + d2 + 8000, Reconnect u),
            (now w + d1 + d2 + d3 + 16000, Reconnect u),
            (now w + d1 + d2 + d3 + d4 + 30000, Reconnect u)]
       \<and> timers (onclose u' c' r' w') =
           (if reconnectAttempts w' < maxReconnectAttempts w'
            then timers w' @ [(now w' + min (1000 * 2 ^ (reconnectAttempts w' + 1)) 30000, Reconnect u')]
            else timers w')
       \<and> reconnectAttempts (onclose u' c' r' w') =
           (if reconnectAttempts w' < maxReconnectAttempts w' then reconnectAttempts w' + 1
            else reconnectAttempts w')
       \<and> reconnectAttempts (onopen w') = 0
       \<and> ((reconnectAttempts (step w' ev) = reconnectAttempts w'
              \<and> maxReconnectAttempts (step w' ev) = maxReconnectAttempts w')
            \<or> ev = OnOpen \<or> (\<exists>url code reason. ev = OnClose url code reason))"
  using assms attempts_step [of w' ev]
  by (simp add: run_def onclose_fields onopen_fields reconnect_delay_def)

theorem reconnect_delays_witness:
  "reconnectAttempts example_world = 0 \<and> maxReconnectAttempts example_world = 5
   \<and> timers (run example_world
        [OnClose ''ws://h/lsp'' (JNum 1006) (JStr ''''), Advance 2000,
         OnClose ''ws://h/lsp'' (JNum 1006) (JStr ''''), Advance 4000,
         OnClose ''ws://h/lsp'' (JNum 1006) (JStr ''''), Advance 8000,
         OnClose ''ws://h/lsp'' (JNum 1006) (JStr ''''), Advance 16000,
         OnClose ''ws://h/lsp'' (JNum 1006) (JStr ''''), Advance 30000,
         OnClose ''ws://h/lsp'' (JNum 1006) (JStr '''')])
     = [(2000, Reconnect ''ws://h/lsp''), (6000, Reconnect ''ws://h/lsp''),
        (14000, Reconnect ''ws://h/lsp''), (30000, Reconnect ''ws://h/lsp''),
        (60000, Reconnect ''ws://h/lsp'')]"
proof -
  have h: "reconnectAttempts example_world = 0" "maxReconnectAttempts example_world = 5"
    and t: "timers example_world = []" "now example_world = 0"
    by (simp_all add: example_world_def constructor_def)
  from reconnect_delays [OF h, of "''ws://h/lsp''" "JNum 1006" "JStr ''''" 2000 "JNum 1006" "JStr ''''" 4000
      "JNum 1006" "JStr ''''" 8000 "JNum 1006" "JStr ''''" 16000 "JNum 1006" "JStr ''''" 30000 "JNum 1006" "JStr ''''"]
  have "timers (run example_world
        [OnClose ''ws://h/lsp'' (JNum 1006) (JStr ''''), Advance 2000,
         OnClose ''ws://h/lsp'' (JNum 1006) (JStr ''''), Advance 4000,
         OnClose ''ws://h/lsp'' (JNum 1006) (JStr ''''), Advance 8000,
         OnClose ''ws://h/lsp'' (JNum 1006) (JStr ''''), Advance 16000,
         OnClose ''ws://h/lsp'' (JNum 1006) (JStr ''''), Advance 30000,
         OnClose ''ws://h/lsp'' (JNum 1006) (JStr '''')])
     = timers example_world @
           [(now example_world + 2000, Reconnect ''ws://h/lsp''),
            (now example_world + 2000 + 4000, Reconnect ''ws://h/lsp''),
            (now example_world + 2000 + 4000 + 8000, Reconnect ''ws://h/lsp''),
            (now example_world + 2000 + 4000 + 8000 + 16000, Reconnect ''ws://h/lsp''),
            (now example_world + 2000 + 4000 + 8000 + 16000 + 30000, Reconnect ''ws://h/lsp'')]"
    by (rule conjunct1)
  with h t show ?thesis by simp
qed

section \<open>Feature requests before the handshake is answered\<close>

lemma guards_null_capabilities:
  assumes "serverCapabilities w = JNull"
  shows "getCompletions uri position w = deliver ''getCompletions'' (Inr (JObj [(''suggestions'', JArr [])])) w"
    and "getHover uri position w = deliver ''getHover'' (Inr JNull) w"
  using assms by (simp_all add: getCompletions_def getHover_def)



section \<open>A send on a socket that is not open\<close>

text \<open>
  C4. When the socket is missing or not in the \<open>OPEN\<close> state, \<open>sendMessage\<close> returns a
  promise rejected with the error \<open>Connection not ready\<close>; the pending-request table,
  the timer queue and the frames sent are as before (only the log line is written).
\<close>

theorem sendMessage_not_ready:
  assumes "ws w \<noteq> Some OPEN"
  shows "sendMessage msg w =
           (Rejected (Error ''Connection not ready''),
            addLog ''Cannot send message: connection not ready'' ''error'' w)
         \<and> pendingRequests (snd (sendMessage msg w)) = pendingRequests w
         \<and> timers (snd (sendMessage msg w)) = timers w
         \<and> nextPromise (snd (sendMessage msg w)) = nextPromise w
         \<and> sent (snd (sendMessage msg w)) = sent w"
  using assms by (auto simp: sendMessage_def addLog_def split: option.splits)

theorem sendMessage_not_ready_witness:
  "ws (example_world\<lparr>ws := Some CONNECTING\<rparr>) \<noteq> Some OPEN
   \<and> fst (sendMessage [(''jsonrpc'', JStr ''2.0''), (''id'', JNum 1), (''method'', JStr ''initialize'')]
            (example_world\<lparr>ws := Some CONNECTING\<rparr>)) = Rejected (Error ''Connection not ready'')
   \<and> pendingRequests (snd (sendMessage [(''jsonrpc'', JStr ''2.0''), (''id'', JNum 1), (''method'', JStr ''initialize'')]
            (example_world\<lparr>ws := Some CONNECTING\<rparr>))) (JNum 1) = None"
proof -
  let ?w = "example_world\<lparr>ws := Some CONNECTING\<rparr>"
  have h: "ws ?w \<noteq> Some OPEN" by simp
  have p: "pendingRequests ?w (JNum 1) = None" by (simp add: example_world_def constructor_def)
  note T = sendMessage_not_ready [OF h, of "[(''jsonrpc'', JStr ''2.0''), (''id'', JNum 1), (''method'', JStr ''initialize'')]"]
  from T have a: "fst (sendMessage [(''jsonrpc'', JStr ''2.0''), (''id'', JNum 1), (''method'', JStr ''initialize'')] ?w)
      = Rejected (Error ''Connection not ready'')" by simp
  from T have b: "pendingRequests (snd (sendMessage [(''jsonrpc'', JStr ''2.0''), (''id'', JNum 1), (''method'', JStr ''initialize'')] ?w))
      = pendingRequests ?w" by blast
  from h a b p show ?thesis by simp
qed

section \<open>Identifiers only grow\<close>

text \<open>
  C5. In every run of a client from its construction, the identifiers of the frames sent
  are strictly increasing, so no two frames carry the same one, and none exceeds the
  counter; nor does any key of the pending-request table. Every task leaves the counter
  as it is or increments it by one, and an identifier a task sends is the incremented
  counter. The open handler sets the reconnection counter to 0 and, far from resetting
  the identifier counter, increments it for its \<open>initialize\<close> request.
\<close>

theorem request_ids_strictly_increasing:
  assumes "w = run (constructor w0) es"
  shows "sorted_wrt (<) (request_ids (sent w))
       \<and> distinct (request_ids (sent w))
       \<and> (\<forall>n \<in> set (request_ids (sent w)). n \<le> messageId w)
       \<and> (\<forall>k e. pendingRequests w k = Some e \<longrightarrow> (\<exists>n. k = JNum n \<and> n \<le> messageId w))
       \<and> ((messageId (step w ev) = messageId w
             \<and> request_ids (sent (step w ev)) = request_ids (sent w))
          \<or> (messageId (step w ev) = messageId w + 1
             \<and> (request_ids (sent (step w ev)) = request_ids (sent w)
                \<or> request_ids (sent (step w ev)) = request_ids (sent w) @ [messageId w + 1])))
       \<and> messageId (onopen w) = messageId w + 1
       \<and> reconnectAttempts (onopen w) = 0"
proof -
  note I = reachable_facts [OF assms]
  from I(7) have s: "sorted_wrt (<) (request_ids (sent w))"
    and b: "\<forall>n \<in> set (request_ids (sent w)). n \<le> messageId w"
    unfolding wire_ok_def by auto
  from s have d: "distinct (request_ids (sent w))"
    by (simp add: strict_sorted_iff)
  from I(2) have k: "\<forall>k e. pendingRequests w k = Some e \<longrightarrow> (\<exists>n. k = JNum n \<and> n \<le> messageId w)"
    unfolding keys_ok_def by blast
  from s d b k step_counter [of w ev] onopen_fields [of w] show ?thesis by blast
qed

theorem request_ids_strictly_increasing_witness:
  "request_ids (sent (run (constructor example_world) reconnect_run)) = [1, 2]
   \<and> distinct (request_ids (sent (run (constructor example_world) reconnect_run)))
   \<and> messageId (run (constructor example_world) reconnect_run) = 2
   \<and> messageId (onopen (run (constructor example_world) reconnect_run)) = 3"
proof -
  let ?w = "run (constructor example_world) reconnect_run"
  from request_ids_strictly_increasing [OF refl, of example_world reconnect_run OnOpen]
  have "distinct (request_ids (sent ?w))" "messageId (onopen ?w) = messageId ?w + 1" by blast+
  then show ?thesis by (simp add: reconnect_run_ids)
qed

section \<open>Responses with an unknown identifier\<close>

text \<open>
  C6, as the claim states it: an unknown-id response would leave a log entry. It does not:
  on a page whose log container is present and empty, \<open>handleMessage\<close> returns from
  the frame \<open>{jsonrpc: "2.0", id: 7, result: null}\<close> with the container still empty.
\<close>

theorem unknown_response_not_logged:
  "lspLogs example_world = Some []
   \<and> map_sum id lspLogs
       (handleMessage (JObj [(''jsonrpc'', JStr ''2.0''), (''id'', JNum 7), (''result'', JNull)])
          example_world) = Inr (Some [])"
  by (simp add: handleMessage_def bnd_def field_def lookup_parsed_def example_world_def constructor_def)

text \<open>
  C6, amended. For every inbound response frame (an object with no \<open>method\<close>) whose
  identifier is not a key of the pending-request table, \<open>handleMessage\<close> returns without
  throwing and leaves the world as it was: no completion is invoked, no entry is removed
  and nothing is logged.
\<close>

theorem unknown_response_discarded:
  assumes "lookup_parsed (pendingRequests w) (field kvs ''id'') = None"
    and "\<not> truthy (field kvs ''method'')"
  shows "handleMessage (JObj kvs) w = Inr w"
  using assms by (simp add: handleMessage_def bnd_def)

theorem unknown_response_discarded_witness:
  "lookup_parsed (pendingRequests example_world)
      (field [(''jsonrpc'', JStr ''2.0''), (''id'', JNum 7), (''error'', JObj [(''message'', JStr ''late'')])] ''id'') = None
   \<and> \<not> truthy (field [(''jsonrpc'', JStr ''2.0''), (''id'', JNum 7), (''error'', JObj [(''message'', JStr ''late'')])] ''method'')
   \<and> handleMessage (JObj [(''jsonrpc'', JStr ''2.0''), (''id'', JNum 7), (''error'', JObj [(''message'', JStr ''late'')])])
        example_world = Inr example_world"
proof -
  let ?kvs = "[(''jsonrpc'', JStr ''2.0''), (''id'', JNum 7), (''error'', JObj [(''message'', JStr ''late'')])]"
  have a: "lookup_parsed (pendingRequests example_world) (field ?kvs ''id'') = None"
    by (simp add: field_def lookup_parsed_def example_world_def constructor_def)
  have b: "\<not> truthy (field ?kvs ''method'')" by (simp add: field_def)
  from unknown_response_discarded [OF a b] a b show ?thesis by blast
qed

section \<open>Diagnostics\<close>

lemma js_get_defined: "v \<noteq> JUndefined \<Longrightarrow> v \<noteq> JNull \<Longrightarrow> js_get v k = Inr (js_get_opt v k)"
  by (cases v) simp_all

lemma js_path_defined:
  assumes "js_path v (k # ks) = Inr u"
  shows "v \<noteq> JUndefined" "v \<noteq> JNull"
  using assms by (cases v; simp)+

lemma marker_severity_table:
  "marker_severity (JNum 1) = Error_severity"
  "marker_severity (JNum 2) = Warning"
  "marker_severity (JNum 3) = Info"
  "marker_severity (JNum 4) = Hint"
  "s \<noteq> JNum 1 \<Longrightarrow> s \<noteq> JNum 2 \<Longrightarrow> s \<noteq> JNum 3 \<Longrightarrow> marker_severity s = Hint"
  by (simp_all add: marker_severity_def)

lemma diagnostic_marker_numeric:
  assumes "js_path diag [''range'', ''start'', ''line''] = Inr (JNum sl)"
    and "js_path diag [''range'', ''start'', ''character''] = Inr (JNum sc)"
    and "js_path diag [''range'', ''end'', ''line''] = Inr (JNum el)"
    and "js_path diag [''range'', ''end'', ''character''] = Inr (JNum ec)"
  shows "diagnostic_marker diag =
           Inr \<lparr>startLineNumber = JNum (sl + 1), endLineNumber = JNum (el + 1),
                startColumn = JNum (sc + 1), endColumn = JNum (ec + 1),
                message = js_get_opt diag ''message'',
                severity = marker_severity (js_get_opt diag ''severity'')\<rparr>"
proof -
  from js_path_defined [OF assms(1)] have "js_get diag k = Inr (js_get_opt diag k)" for k
    by (rule js_get_defined)
  then have "js_get diag ''message'' = Inr (js_get_opt diag ''message'')"
    "js_get diag ''severity'' = Inr (js_get_opt diag ''severity'')" by simp_all
  with assms show ?thesis
    unfolding diagnostic_marker_def by (simp add: bnd_def)
qed

lemma map_result_numeric:
  assumes "list_all2 (\<lambda>d (sl, sc, el, ec).
             js_path d [''range'', ''start'', ''line''] = Inr (JNum sl)
           \<and> js_path d [''range'', ''start'', ''character''] = Inr (JNum sc)
           \<and> js_path d [''range'', ''end'', ''line''] = Inr (JNum el)
           \<and> js_path d [''range'', ''end'', ''character''] = Inr (JNum ec)) ds rs"
  shows "map_result diagnostic_marker ds =
           Inr (map2 (\<lambda>d (sl, sc, el, ec).
                  \<lparr>startLineNumber = JNum (sl + 1), endLineNumber = JNum (el + 1),
                   startColumn = JNum (sc + 1), endColumn = JNum (ec + 1),
                   message = js_get_opt d ''message'',
                   severity = marker_severity (js_get_opt d ''severity'')\<rparr>) ds rs)"
  using assms
proof (induction ds rs rule: list_all2_induct)
  case Nil
  then show ?case by simp
next
  case (Cons d ds r rs)
  obtain sl sc el ec where r: "r = (sl, sc, el, ec)" by (cases r)
  with Cons.hyps(1) have "diagnostic_marker d =
           Inr \<lparr>startLineNumber = JNum (sl + 1), endLineNumber = JNum (el + 1),
                startColumn = JNum (sc + 1), endColumn = JNum (ec + 1),
                message = js_get_opt d ''message'',
                severity = marker_severity (js_get_opt d ''severity'')\<rparr>"
    by (intro diagnostic_marker_numeric) simp_all
  with Cons.IH r show ?case by simp
qed



section \<open>Hover contents\<close>

lemma hover_fragment_string: "hover_fragment (JStr s) = Inr (JStr s)"
  by (simp add: hover_fragment_def)

lemma hover_fragment_value:
  assumes "field kvs ''value'' = JStr v" "v \<noteq> []"
  shows "hover_fragment (JObj kvs) = Inr (JStr v)"
  using assms by (simp add: hover_fragment_def bnd_def)

lemma hover_result_example:
  "hover_result (JObj [(''contents'', JArr [JStr ''a'', JObj [(''value'', JStr ''b'')]])])
     = Inr (JObj [(''range'', JUndefined),
                  (''contents'', JArr [JObj [(''value'', JStr [CHR ''a'', CHR 0x0A, CHR 0x0A, CHR ''b''])]])])"
  by (simp add: hover_result_def hover_markdown_def hover_fragment_def bnd_def field_def join_element_def)

lemma hover_result_no_contents:
  assumes "\<not> truthy (js_get_opt result ''contents'')"
  shows "hover_result result = Inr JNull"
  using assms by (cases result) (simp_all add: hover_result_def bnd_def)

lemma map_result_hover_fragments:
  assumes "list_all2 (\<lambda>f s. f = JStr s \<or> (\<exists>kvs. f = JObj kvs \<and> field kvs ''value'' = JStr s \<and> s \<noteq> [])) fs ss"
  shows "map_result hover_fragment fs = Inr (map JStr ss)"
  using assms
proof (induction fs ss rule: list_all2_induct)
  case Nil
  then show ?case by simp
next
  case (Cons f fs s ss)
  from Cons.hyps(1) have "hover_fragment f = Inr (JStr s)"
    by (auto simp: hover_fragment_string hover_fragment_value)
  with Cons.IH show ?case by simp
qed

lemma hover_markdown_fragments:
  assumes "list_all2 (\<lambda>f s. f = JStr s \<or> (\<exists>kvs. f = JObj kvs \<and> field kvs ''value'' = JStr s \<and> s \<noteq> [])) fs ss"
  shows "hover_markdown (JArr fs) = Inr (join [CHR 0x0A, CHR 0x0A] ss)"
proof -
  have "map join_element (map JStr ss) = ss"
    by (induction ss) (simp_all add: join_element_def)
  with map_result_hover_fragments [OF assms] show ?thesis
    by (simp add: hover_markdown_def bnd_def)
qed

text \<open>
  C8. Strings and objects with a non-empty \<open>value\<close> are joined as the claim says (the
  lemmas above). A fragment that is an object whose \<open>value\<close> is the empty string is not
  replaced by its value: \<open>content.value || content\<close> falls back to the object, which
  \<open>join\<close> prints as \<open>[object Object]\<close>. For the contents
  \<open>["a", {kind: "markdown", value: ""}]\<close> the text block is \<open>a\<close>, a blank line,
  \<open>[object Object]\<close>.
\<close>

theorem hover_empty_value_fragment:
  "hover_result (JObj [(''contents'', JArr
       [JStr ''a'', JObj [(''kind'', JStr ''markdown''), (''value'', JStr '''')]])])
     = Inr (JObj [(''range'', JUndefined),
                  (''contents'', JArr [JObj [(''value'',
                     JStr ([CHR ''a'', CHR 0x0A, CHR 0x0A] @ ''[object Object]''))]])])"
  by (simp add: hover_result_def hover_markdown_def hover_fragment_def bnd_def field_def join_element_def)

section \<open>Responses to the client's own requests\<close>



section \<open>The log container\<close>

lemma keep_last_50_drop: "keep_last_50 xs = drop (length xs - 50) xs"
proof (induction xs rule: keep_last_50.induct)
  case (1 children)
  show ?case
  proof (cases "length children > 50")
    case True
    then have "keep_last_50 children = keep_last_50 (tl children)"
      by (subst keep_last_50.simps) simp
    also have "\<dots> = drop (length (tl children) - 50) (tl children)"
      using 1 True by simp
    also have "\<dots> = drop (length children - 50) children"
    proof (cases children)
      case Nil
      with True show ?thesis by simp
    next
      case (Cons a list)
      with True have "length list - 49 = Suc (length list - 50)" by simp
      with Cons show ?thesis by simp
    qed
    finally show ?thesis .
  next
    case False
    then show ?thesis by (subst keep_last_50.simps) simp
  qed
qed

text \<open>
  C10. After a call of \<open>addLog\<close> on a page that has the log container, the container
  holds the last 50 of its former children followed by the new entry, hence at most 50
  entries, the oldest removed first; whatever number of children it had before.
\<close>

theorem addLog_keeps_last_50:
  assumes "lspLogs w = Some old"
  shows "\<exists>kept. lspLogs (addLog msg type w) = Some kept
           \<and> kept = drop (Suc (length old) - 50) (old @ [LogEntry (''log-entry '' @ type) (now w) msg])
           \<and> length kept \<le> 50"
  using assms by (simp add: addLog_def keep_last_50_drop)

theorem addLog_keeps_last_50_witness:
  "lspLogs (example_world\<lparr>lspLogs := Some (replicate 50 (LogEntry ''log-entry info'' 0 ''old''))\<rparr>)
     = Some (replicate 50 (LogEntry ''log-entry info'' 0 ''old''))
   \<and> lspLogs (addLog ''new'' ''error''
        (example_world\<lparr>lspLogs := Some (replicate 50 (LogEntry ''log-entry info'' 0 ''old''))\<rparr>))
     = Some (replicate 49 (LogEntry ''log-entry info'' 0 ''old'') @ [LogEntry ''log-entry error'' 0 ''new''])"
proof -
  let ?w = "example_world\<lparr>lspLogs := Some (replicate 50 (LogEntry ''log-entry info'' 0 ''old''))\<rparr>"
  have h: "lspLogs ?w = Some (replicate 50 (LogEntry ''log-entry info'' 0 ''old''))" by simp
  have n: "now ?w = 0" by (simp add: example_world_def constructor_def)
  have d: "drop (Suc 0) (replicate 50 (LogEntry ''log-entry info'' 0 ''old''))
         = replicate 49 (LogEntry ''log-entry info'' 0 ''old'')" by simp
  from addLog_keeps_last_50 [OF h, of "''new''" "''error''"] h n d show ?thesis by simp
qed

end
